theory Spec2Isabelle
  imports Main "HOL-Library.Multiset" "HOL-Library.Sublist"
begin

section \<open>Exceptions, requests and replies\<close>

text \<open>
  The script \<^verbatim>\<open>metaforo_watchdog_en.py\<close> (its Chinese twin differs in message strings only)
  talks to two HTTP services through the \<^verbatim>\<open>requests\<close> library. The exceptions that matter
  are the members of \<^verbatim>\<open>requests.exceptions.RequestException\<close>, the \<^verbatim>\<open>ValueError\<close> that
  \<^verbatim>\<open>request_with_retry\<close> raises for an unsupported method, the \<^verbatim>\<open>TypeError\<close> of
  \<^verbatim>\<open>raise None\<close>, and the \<^verbatim>\<open>ValueError\<close>, \<^verbatim>\<open>TypeError\<close> and \<^verbatim>\<open>OverflowError\<close> that \<^verbatim>\<open>float\<close>,
  \<^verbatim>\<open>math.floor\<close> and \<^verbatim>\<open>bytearray.fromhex\<close> raise. An \<^verbatim>\<open>HTTPError\<close> carries the status code
  of its response, if it has one. \<^verbatim>\<open>JSONDecodeError\<close> is the one \<^verbatim>\<open>response.json()\<close> raises; in
  \<^verbatim>\<open>requests\<close> (2.27 and later) it is a \<^verbatim>\<open>RequestException\<close> with no response attached.
\<close>

datatype request_exception =
    ConnectionError
  | Timeout
  | HTTPError "nat option"
  | JSONDecodeError
  | OtherRequestException

datatype exn = RequestException request_exception | ValueError | TypeError | OverflowError

text \<open>The attribute \<^verbatim>\<open>e.response.status_code\<close> of an exception, where there is a response.\<close>

fun response_status :: "request_exception \<Rightarrow> nat option" where
  "response_status (HTTPError s) = s"
| "response_status _ = None"

datatype http_method = GET | POST

text \<open>
  The three URLs the pipeline requests: the vote list of an option (option id, page), the
  profile of a user, and the live cells of an address (address, page, page size).
\<close>

datatype endpoint =
    PollList int nat
  | Profile int
  | AddressLiveCells string nat nat

text \<open>The requests sent so far, oldest first.\<close>

type_synonym trace = "(http_method \<times> endpoint) list"

text \<open>
  A response has a status code and a body; the body is \<open>None\<close> when it is not JSON, so that
  \<^verbatim>\<open>response.json()\<close> raises.
\<close>

record 'b response =
  status_code :: nat
  body :: "'b option"

text \<open>
  One call of \<^verbatim>\<open>requests.get\<close> or \<^verbatim>\<open>requests.post\<close> either raises a \<^verbatim>\<open>RequestException\<close>
  or returns a response.
\<close>

datatype 'b reply = Raises request_exception | Returns "'b response"

text \<open>
  A URL is modelled by the endpoint it names together with the service behind it: what
  that service answers to a request with the given method, after the requests of the
  given trace. The answer may change from one attempt to the next.
\<close>

record 'b url =
  endpoint :: endpoint
  server :: "http_method \<Rightarrow> trace \<Rightarrow> 'b reply"

definition requests_call :: "http_method \<Rightarrow> 'b url \<Rightarrow> trace \<Rightarrow> 'b reply \<times> trace" where
  "requests_call m u tr = (server u m tr, tr @ [(m, endpoint u)])"

text \<open>\<^verbatim>\<open>response.raise_for_status()\<close>: an \<^verbatim>\<open>HTTPError\<close> for a status from 400 to 599.\<close>

definition raise_for_status :: "'b response \<Rightarrow> exn + 'b response" where
  "raise_for_status r =
     (if 400 \<le> status_code r \<and> status_code r < 600
      then Inl (RequestException (HTTPError (Some (status_code r))))
      else Inr r)"

definition response_json :: "'b response \<Rightarrow> exn + 'b" where
  "response_json r =
     (case body r of None \<Rightarrow> Inl (RequestException JSONDecodeError) | Some b \<Rightarrow> Inr b)"

section \<open>The request executor\<close>

definition MAX_RETRIES :: nat where
  "MAX_RETRIES = 3"

fun is_retryable_error :: "exn \<Rightarrow> bool" where
  "is_retryable_error (RequestException ConnectionError) = True"
| "is_retryable_error (RequestException Timeout) = True"
| "is_retryable_error (RequestException (HTTPError (Some sc))) = (sc = 429 \<or> sc \<ge> 500)"
| "is_retryable_error _ = False"

text \<open>\<^verbatim>\<open>str.lower\<close> on ASCII letters.\<close>

definition lower_char :: "char \<Rightarrow> char" where
  "lower_char c =
     (case map_of (zip ''ABCDEFGHIJKLMNOPQRSTUVWXYZ'' ''abcdefghijklmnopqrstuvwxyz'') c of
        None \<Rightarrow> c
      | Some l \<Rightarrow> l)"

definition lower :: "string \<Rightarrow> string" where
  "lower s = map lower_char s"

text \<open>The body of the \<^verbatim>\<open>try\<close> in \<^verbatim>\<open>request_with_retry\<close>: one attempt.\<close>

definition attempt_request :: "string \<Rightarrow> 'b url \<Rightarrow> trace \<Rightarrow> (exn + 'b response) \<times> trace" where
  "attempt_request method u tr =
     (if lower method = ''get'' then
        (case requests_call GET u tr of
           (Raises e, tr') \<Rightarrow> (Inl (RequestException e), tr')
         | (Returns response, tr') \<Rightarrow> (raise_for_status response, tr'))
      else if lower method = ''post'' then
        (case requests_call POST u tr of
           (Raises e, tr') \<Rightarrow> (Inl (RequestException e), tr')
         | (Returns response, tr') \<Rightarrow> (raise_for_status response, tr'))
      else (Inl ValueError, tr))"

text \<open>
  The loop \<^verbatim>\<open>for attempt in range(max_retries + 1)\<close>, over the attempts still to make.
  Only a \<^verbatim>\<open>RequestException\<close> is caught; it is raised again unless the attempt is not the
  last one and the error is retryable. After the loop comes \<^verbatim>\<open>raise last_exception\<close>.
\<close>

fun request_loop ::
  "string \<Rightarrow> 'b url \<Rightarrow> nat \<Rightarrow> nat list \<Rightarrow> exn option \<Rightarrow> trace \<Rightarrow> (exn + 'b response) \<times> trace"
where
  "request_loop method u max_retries [] last_exception tr =
     (case last_exception of None \<Rightarrow> (Inl TypeError, tr) | Some e \<Rightarrow> (Inl e, tr))"
| "request_loop method u max_retries (attempt # rest) last_exception tr =
     (case attempt_request method u tr of
        (Inr response, tr') \<Rightarrow> (Inr response, tr')
      | (Inl (RequestException e), tr') \<Rightarrow>
          (if attempt < max_retries \<and> is_retryable_error (RequestException e)
           then request_loop method u max_retries rest (Some (RequestException e)) tr'
           else (Inl (RequestException e), tr'))
      | (Inl e, tr') \<Rightarrow> (Inl e, tr'))"

definition request_with_retry ::
  "string \<Rightarrow> 'b url \<Rightarrow> nat \<Rightarrow> trace \<Rightarrow> (exn + 'b response) \<times> trace"
where
  "request_with_retry method u max_retries tr =
     request_loop method u max_retries [0..<max_retries + 1] None tr"

section \<open>Python floats\<close>

text \<open>
  \<^verbatim>\<open>get_address_onchain_weight\<close> converts every capacity with \<^verbatim>\<open>float\<close>, adds the floats and
  divides the sum by \<^verbatim>\<open>10**8\<close> before \<^verbatim>\<open>math.floor\<close>. A Python float is an IEEE 754
  double: 53 significant bits, results rounded to the nearest double, ties to the even
  significand, and a result of \<open>2 ^ 1024\<close> or more is infinity. The capacities are whole
  numbers of shannons, so a finite float in the running sum is a whole number, held here
  as the \<open>nat\<close> it equals; the other two values a sum can take are infinity and
  not-a-number.
\<close>

datatype py_float = Finite nat | Infinity | NaN

text \<open>\<^verbatim>\<open>int.bit_length\<close>.\<close>

fun bit_length :: "nat \<Rightarrow> nat" where
  "bit_length n = (if n = 0 then 0 else Suc (bit_length (n div 2)))"

declare bit_length.simps [simp del]

text \<open>The integer nearest to \<open>n / d\<close>, ties to even.\<close>

definition round_half_even :: "nat \<Rightarrow> nat \<Rightarrow> nat" where
  "round_half_even n d =
     (let q = n div d; r = n mod d
      in if 2 * r < d then q else if d < 2 * r then q + 1 else if even q then q else q + 1)"

text \<open>A whole number rounded to 53 significant bits.\<close>

definition round_to_double :: "nat \<Rightarrow> nat" where
  "round_to_double n =
     (let e = bit_length n
      in if e \<le> 53 then n else round_half_even n (2 ^ (e - 53)) * 2 ^ (e - 53))"

text \<open>
  The double nearest to a whole number, which is infinity from \<open>2 ^ 1024\<close> on: \<^verbatim>\<open>float(s)\<close>
  for a string \<open>s\<close> of its digits.
\<close>

definition float_of_nat :: "nat \<Rightarrow> py_float" where
  "float_of_nat n = (let r = round_to_double n in if r < 2 ^ 1024 then Finite r else Infinity)"

text \<open>The sum of two floats that are not negative.\<close>

fun float_add :: "py_float \<Rightarrow> py_float \<Rightarrow> py_float" where
  "float_add NaN y = NaN"
| "float_add x NaN = NaN"
| "float_add Infinity y = Infinity"
| "float_add x Infinity = Infinity"
| "float_add (Finite a) (Finite b) = float_of_nat (a + b)"

text \<open>
  The floor of the double \<open>a / b\<close> for a finite whole-number float \<open>a\<close> and a positive \<open>b\<close>
  below \<open>2 ^ 53\<close>: the quotient is rounded to the double \<open>m * 2 ^ s\<close> nearest to it, with \<open>m\<close> of
  53 bits, and that double is floored.
\<close>

definition scaled_num :: "nat \<Rightarrow> int \<Rightarrow> nat" where
  "scaled_num a s = (if s < 0 then a * 2 ^ nat (- s) else a)"

definition scaled_den :: "nat \<Rightarrow> int \<Rightarrow> nat" where
  "scaled_den b s = (if s < 0 then b else b * 2 ^ nat s)"

definition quotient_exponent :: "nat \<Rightarrow> nat \<Rightarrow> int" where
  "quotient_exponent a b =
     (let s1 = int (bit_length a) - int (bit_length b) - 52
      in if 2 ^ 52 * scaled_den b s1 \<le> scaled_num a s1 then s1 else s1 - 1)"

definition floor_finite_div :: "nat \<Rightarrow> nat \<Rightarrow> int" where
  "floor_finite_div a b =
     (if a = 0 then 0
      else
        let s = quotient_exponent a b;
            m = round_half_even (scaled_num a s) (scaled_den b s)
        in if s < 0 then int (m div 2 ^ nat (- s)) else int (m * 2 ^ nat s))"

text \<open>
  \<^verbatim>\<open>math.floor(a / b)\<close> for a float \<open>a\<close>: infinity and not-a-number stay what they are under
  the division, and \<^verbatim>\<open>math.floor\<close> raises \<^verbatim>\<open>OverflowError\<close> on the one and \<^verbatim>\<open>ValueError\<close> on
  the other.
\<close>

fun floor_float_div :: "py_float \<Rightarrow> nat \<Rightarrow> exn + int" where
  "floor_float_div (Finite a) b = Inr (floor_finite_div a b)"
| "floor_float_div Infinity b = Inl OverflowError"
| "floor_float_div NaN b = Inl ValueError"

section \<open>The data of the two services\<close>

text \<open>
  The governance platform wraps every answer in an envelope with a status flag and a code;
  20000 is success.
\<close>

record 'a envelope =
  status :: bool
  code :: int
  data :: 'a

text \<open>
  A vote as the platform lists it; a \<open>user_id\<close> of \<open>None\<close> is an absent or null one, a \<open>weight\<close>
  of \<open>None\<close> an absent one. The last two fields are the keys \<^verbatim>\<open>weight_list\<close> and
  \<^verbatim>\<open>weight_calc\<close> that \<^verbatim>\<open>process_option\<close> adds to the vote; \<open>None\<close> is a key not set.
\<close>

record vote =
  user_id :: "int option"
  name :: string
  last_time :: string
  weight :: "int option"
  weight_list :: "(string \<times> int) list option"
  weight_calc :: "int option"

record user =
  neuron_addresses :: "string list"
  web3_public_key :: string

text \<open>
  The \<^verbatim>\<open>capacity\<close> attribute of a cell as JSON gives it: absent, \<^verbatim>\<open>null\<close>, an integer literal,
  or a string; a string is read by \<^verbatim>\<open>float\<close> as a whole number, as infinity, as not-a-number,
  or not at all. A number literal with a fraction or an exponent is a float already and
  counts as a string of the same digits. Capacities that are negative or not whole are
  left out: the explorer reports whole numbers of shannons.
\<close>

datatype capacity_json =
    Missing
  | Null
  | Integer nat
  | Digits nat
  | InfinityText
  | NanText
  | Garbage

text \<open>
  \<^verbatim>\<open>float(attributes.get("capacity", 0))\<close>: the default is the integer 0, \<^verbatim>\<open>null\<close> raises
  \<^verbatim>\<open>TypeError\<close>, an integer too large for a double raises \<^verbatim>\<open>OverflowError\<close>, a string too
  large becomes infinity, and a string that is no number raises \<^verbatim>\<open>ValueError\<close>.
\<close>

fun python_float :: "capacity_json \<Rightarrow> exn + py_float" where
  "python_float Missing = Inr (Finite 0)"
| "python_float Null = Inl TypeError"
| "python_float (Integer n) =
     (case float_of_nat n of Infinity \<Rightarrow> Inl OverflowError | f \<Rightarrow> Inr f)"
| "python_float (Digits n) = Inr (float_of_nat n)"
| "python_float InfinityText = Inr Infinity"
| "python_float NanText = Inr NaN"
| "python_float Garbage = Inl ValueError"

record cell =
  cell_type :: string
  capacity :: capacity_json

text \<open>
  What lies outside the script: the three services, each answering a request with the given
  parameters and method after the given trace, and \<open>script_addr\<close>, the address that the
  \<^verbatim>\<open>pyckb\<close> library encodes on the main network for the PW lock script whose argument is
  the given list of bytes.
\<close>

record world =
  poll_list :: "int \<Rightarrow> nat \<Rightarrow> http_method \<Rightarrow> trace \<Rightarrow> vote list envelope reply"
  profile :: "int \<Rightarrow> http_method \<Rightarrow> trace \<Rightarrow> user envelope reply"
  address_live_cells :: "string \<Rightarrow> nat \<Rightarrow> nat \<Rightarrow> http_method \<Rightarrow> trace \<Rightarrow> cell list reply"
  script_addr :: "nat list \<Rightarrow> string"

section \<open>The address bridge\<close>

text \<open>
  \<^verbatim>\<open>bytearray.fromhex\<close>: two hexadecimal digits per byte, ASCII whitespace skipped between
  the bytes, \<^verbatim>\<open>ValueError\<close> for anything else.
\<close>

definition hex_digit :: "char \<Rightarrow> nat option" where
  "hex_digit c =
     map_of (zip ''0123456789abcdefABCDEF''
                 [0, 1, 2, 3, 4, 5, 6, 7, 8, 9, 10, 11, 12, 13, 14, 15, 10, 11, 12, 13, 14, 15]) c"

definition is_space :: "char \<Rightarrow> bool" where
  "is_space c = (c \<in> set [CHR '' '', CHR 0x09, CHR 0x0A, CHR 0x0B, CHR 0x0C, CHR 0x0D])"

fun fromhex :: "string \<Rightarrow> exn + nat list" where
  "fromhex [] = Inr []"
| "fromhex [c] = (if is_space c then Inr [] else Inl ValueError)"
| "fromhex (c # d # ds) =
     (if is_space c then fromhex (d # ds)
      else
        (case (hex_digit c, hex_digit d) of
           (Some h, Some l) \<Rightarrow>
             (case fromhex ds of Inl e \<Rightarrow> Inl e | Inr bytes \<Rightarrow> Inr ((16 * h + l) # bytes))
         | _ \<Rightarrow> Inl ValueError))"

text \<open>
  \<^verbatim>\<open>metamask_to_ckb_address\<close> with \<^verbatim>\<open>mainnet=True\<close>: the empty key gives the empty string; any
  other key loses a leading \<^verbatim>\<open>0x\<close>, is lowered and decoded, and the script with the fixed
  code hash and these bytes as argument is encoded by \<^verbatim>\<open>pyckb\<close>.
\<close>

definition metamask_to_ckb_address :: "world \<Rightarrow> string \<Rightarrow> exn + string" where
  "metamask_to_ckb_address w metamask_address =
     (if metamask_address = [] then Inr []
      else
        let address_hex =
              (if take 2 metamask_address = ''0x'' then drop 2 metamask_address
               else metamask_address)
        in (case fromhex (lower address_hex) of
              Inl e \<Rightarrow> Inl e
            | Inr args \<Rightarrow> Inr (script_addr w args)))"

section \<open>The vote paginator\<close>

text \<open>
  The \<^verbatim>\<open>while True\<close> loop of \<^verbatim>\<open>get_all_votes\<close>, with its variables \<open>all_votes\<close> and \<open>page\<close>.
  The outer \<open>option\<close> is \<open>None\<close> when the loop never ends; the inner one is the \<^verbatim>\<open>None\<close> that
  the function returns in place of a list.
\<close>

partial_function (option) get_all_votes_loop ::
  "world \<Rightarrow> int \<Rightarrow> vote list \<Rightarrow> nat \<Rightarrow> trace \<Rightarrow> ((exn + vote list option) \<times> trace) option"
where
  "get_all_votes_loop w option_id all_votes page tr =
     (case request_with_retry ''post''
             \<lparr>endpoint = PollList option_id page, server = poll_list w option_id page\<rparr>
             MAX_RETRIES tr of
        (Inl (RequestException e), tr') \<Rightarrow> Some (Inr None, tr')
      | (Inl e, tr') \<Rightarrow> Some (Inl e, tr')
      | (Inr response, tr') \<Rightarrow>
          (case response_json response of
             Inl (RequestException e) \<Rightarrow> Some (Inr None, tr')
           | Inl e \<Rightarrow> Some (Inl e, tr')
           | Inr d \<Rightarrow>
               if status d \<and> code d = 20000 then
                 (let vote_list = data d
                  in if vote_list = [] then Some (Inr (Some all_votes), tr')
                     else get_all_votes_loop w option_id (all_votes @ vote_list) (page + 1) tr')
               else Some (Inr None, tr')))"

declare get_all_votes_loop.simps [code]

definition get_all_votes ::
  "world \<Rightarrow> int \<Rightarrow> trace \<Rightarrow> ((exn + vote list option) \<times> trace) option"
where
  "get_all_votes w option_id tr = get_all_votes_loop w option_id [] 1 tr"

section \<open>The identity resolver\<close>

text \<open>
  \<^verbatim>\<open>get_user_dao_addresses\<close>. Its one \<^verbatim>\<open>except\<close> clause catches a \<^verbatim>\<open>RequestException\<close> and returns
  the empty list; the \<^verbatim>\<open>ValueError\<close> of the bridge is inside the \<^verbatim>\<open>try\<close> too, but it is not
  caught and leaves the function.
\<close>

definition get_user_dao_addresses ::
  "world \<Rightarrow> int \<Rightarrow> trace \<Rightarrow> (exn + string list) \<times> trace"
where
  "get_user_dao_addresses w uid tr =
     (case request_with_retry ''get''
             \<lparr>endpoint = Profile uid, server = profile w uid\<rparr> MAX_RETRIES tr of
        (Inl (RequestException e), tr') \<Rightarrow> (Inr [], tr')
      | (Inl e, tr') \<Rightarrow> (Inl e, tr')
      | (Inr response, tr') \<Rightarrow>
          (case response_json response of
             Inl (RequestException e) \<Rightarrow> (Inr [], tr')
           | Inl e \<Rightarrow> (Inl e, tr')
           | Inr d \<Rightarrow>
               if status d \<and> code d = 20000 then
                 (let user_data = data d;
                      addresses = neuron_addresses user_data;
                      key = web3_public_key user_data
                  in if key \<noteq> [] then
                       (case metamask_to_ckb_address w key of
                          Inl e \<Rightarrow> (Inl e, tr')
                        | Inr pwlock_address \<Rightarrow>
                            if pwlock_address \<noteq> [] \<and> pwlock_address \<notin> set addresses
                            then (Inr (addresses @ [pwlock_address]), tr')
                            else (Inr addresses, tr'))
                     else (Inr addresses, tr'))
               else (Inr [], tr')))"

section \<open>The weight aggregator\<close>

text \<open>
  The \<^verbatim>\<open>for cell in data\<close> loop: the capacities of the deposit cells are converted and added
  as floats. An exception of \<^verbatim>\<open>float\<close> ends the loop.
\<close>

fun add_deposits :: "py_float \<Rightarrow> cell list \<Rightarrow> exn + py_float" where
  "add_deposits total_capacity [] = Inr total_capacity"
| "add_deposits total_capacity (c # cells) =
     (if cell_type c = ''nervos_dao_deposit'' then
        (case python_float (capacity c) of
           Inl e \<Rightarrow> Inl e
         | Inr f \<Rightarrow> add_deposits (float_add total_capacity f) cells)
      else add_deposits total_capacity cells)"

text \<open>
  The \<^verbatim>\<open>while True\<close> loop of \<^verbatim>\<open>get_address_onchain_weight\<close>, with its variables
  \<open>total_capacity\<close> and \<open>page\<close>. The source fixes \<open>page_size\<close> at 20; it is an argument here so
  that the loop can be compared at several page sizes. Both \<^verbatim>\<open>except\<close> clauses leave the loop
  with \<^verbatim>\<open>break\<close>; the first one tells a 404 from the other errors in its message only. They
  catch a \<^verbatim>\<open>RequestException\<close>, which the error of \<^verbatim>\<open>response.json()\<close> is, and \<^verbatim>\<open>KeyError\<close>;
  what \<^verbatim>\<open>float\<close> raises is neither and leaves the function.
\<close>

partial_function (option) address_cells_loop ::
  "world \<Rightarrow> string \<Rightarrow> nat \<Rightarrow> py_float \<Rightarrow> nat \<Rightarrow> trace \<Rightarrow> ((exn + py_float) \<times> trace) option"
where
  "address_cells_loop w addr page_size total_capacity page tr =
     (case request_with_retry ''get''
             \<lparr>endpoint = AddressLiveCells addr page page_size,
              server = address_live_cells w addr page page_size\<rparr>
             MAX_RETRIES tr of
        (Inl (RequestException e), tr') \<Rightarrow> Some (Inr total_capacity, tr')
      | (Inl e, tr') \<Rightarrow> Some (Inl e, tr')
      | (Inr response, tr') \<Rightarrow>
          (case response_json response of
             Inl (RequestException e) \<Rightarrow> Some (Inr total_capacity, tr')
           | Inl e \<Rightarrow> Some (Inl e, tr')
           | Inr d \<Rightarrow>
               (case add_deposits total_capacity d of
                  Inl e \<Rightarrow> Some (Inl e, tr')
                | Inr summed \<Rightarrow>
                    if length d < page_size then Some (Inr summed, tr')
                    else address_cells_loop w addr page_size summed (page + 1) tr')))"

declare address_cells_loop.simps [code]

text \<open>
  The loop started as the source starts it, at any page size, and the final
  \<^verbatim>\<open>math.floor(total_capacity / (10**8))\<close>, which is outside the \<^verbatim>\<open>try\<close>.
\<close>

definition onchain_weight_paged ::
  "world \<Rightarrow> string \<Rightarrow> nat \<Rightarrow> trace \<Rightarrow> ((exn + int) \<times> trace) option"
where
  "onchain_weight_paged w addr page_size tr =
     (case address_cells_loop w addr page_size (Finite 0) 1 tr of
        None \<Rightarrow> None
      | Some (Inl e, tr') \<Rightarrow> Some (Inl e, tr')
      | Some (Inr total_capacity, tr') \<Rightarrow> Some (floor_float_div total_capacity (10 ^ 8), tr'))"

definition get_address_onchain_weight ::
  "world \<Rightarrow> string \<Rightarrow> trace \<Rightarrow> ((exn + int) \<times> trace) option"
where
  "get_address_onchain_weight w addr tr = onchain_weight_paged w addr 20 tr"

section \<open>The reconciliation engine\<close>

text \<open>
  The inner loop \<^verbatim>\<open>for address in addresses\<close> of \<^verbatim>\<open>process_option\<close>, with its variables
  \<open>weight_list\<close> and \<open>total_onchain_weight\<close>.
\<close>

fun address_weights ::
  "world \<Rightarrow> string list \<Rightarrow> (string \<times> int) list \<Rightarrow> int \<Rightarrow> trace \<Rightarrow>
   ((exn + (string \<times> int) list \<times> int) \<times> trace) option"
where
  "address_weights w [] wl total_onchain_weight tr = Some (Inr (wl, total_onchain_weight), tr)"
| "address_weights w (addr # rest) wl total_onchain_weight tr =
     (case get_address_onchain_weight w addr tr of
        None \<Rightarrow> None
      | Some (Inl e, tr') \<Rightarrow> Some (Inl e, tr')
      | Some (Inr onchain_weight, tr') \<Rightarrow>
          address_weights w rest (wl @ [(addr, onchain_weight)])
            (total_onchain_weight + onchain_weight) tr')"

text \<open>Python's \<^verbatim>\<open>not user_id\<close>: a missing, null or zero identifier.\<close>

definition falsy_id :: "int option \<Rightarrow> bool" where
  "falsy_id uid = (case uid of None \<Rightarrow> True | Some n \<Rightarrow> n = 0)"

text \<open>One round of the loop \<^verbatim>\<open>for i, vote in enumerate(voters_data)\<close>.\<close>

definition enrich_vote :: "world \<Rightarrow> vote \<Rightarrow> trace \<Rightarrow> ((exn + vote) \<times> trace) option" where
  "enrich_vote w v tr =
     (if falsy_id (user_id v) then
        Some (Inr (v\<lparr>weight_list := Some [], weight_calc := Some 0\<rparr>), tr)
      else
        (case get_user_dao_addresses w (the (user_id v)) tr of
           (Inl e, tr') \<Rightarrow> Some (Inl e, tr')
         | (Inr addresses, tr') \<Rightarrow>
             if addresses = [] then
               Some (Inr (v\<lparr>weight_list := Some [], weight_calc := Some 0\<rparr>), tr')
             else
               (case address_weights w addresses [] 0 tr' of
                  None \<Rightarrow> None
                | Some (Inl e, tr'') \<Rightarrow> Some (Inl e, tr'')
                | Some (Inr (wl, total_onchain_weight), tr'') \<Rightarrow>
                    Some (Inr (v\<lparr>weight_list := Some wl,
                                  weight_calc := Some total_onchain_weight\<rparr>), tr''))))"

fun enrich_votes :: "world \<Rightarrow> vote list \<Rightarrow> trace \<Rightarrow> ((exn + vote list) \<times> trace) option" where
  "enrich_votes w [] tr = Some (Inr [], tr)"
| "enrich_votes w (v # rest) tr =
     (case enrich_vote w v tr of
        None \<Rightarrow> None
      | Some (Inl e, tr') \<Rightarrow> Some (Inl e, tr')
      | Some (Inr v', tr') \<Rightarrow>
          (case enrich_votes w rest tr' of
             None \<Rightarrow> None
           | Some (Inl e, tr'') \<Rightarrow> Some (Inl e, tr'')
           | Some (Inr vs, tr'') \<Rightarrow> Some (Inr (v' # vs), tr'')))"

text \<open>A row of the export, with the keys of the exported dictionary as fields.\<close>

record export_row =
  nickname :: string
  userid :: "int option"
  total_weight_metaforo :: int
  total_weight_onchain_floored :: int
  address :: string
  address_weight_floored :: int
  need_review :: bool
  explorer_url :: string

text \<open>\<^verbatim>\<open>math.floor\<close> of a Python \<^verbatim>\<open>int\<close> is that \<^verbatim>\<open>int\<close>.\<close>

definition math_floor :: "int \<Rightarrow> int" where
  "math_floor n = n"

text \<open>
  The body of the export loop \<^verbatim>\<open>for vote in voters_data\<close>: the rows of one vote. The
  dictionary lookups \<^verbatim>\<open>vote.get(key, default)\<close> give the default for a key not set.
\<close>

definition export_vote :: "vote \<Rightarrow> export_row list" where
  "export_vote v =
     (let metaforo = (case weight v of None \<Rightarrow> 0 | Some n \<Rightarrow> n);
          onchain = (case weight_calc v of None \<Rightarrow> 0 | Some n \<Rightarrow> n);
          wl = (case weight_list v of None \<Rightarrow> [] | Some l \<Rightarrow> l);
          review = (metaforo \<noteq> math_floor onchain)
      in if wl \<noteq> [] then
           map (\<lambda>item.
                  \<lparr>nickname = name v, userid = user_id v,
                   total_weight_metaforo = metaforo,
                   total_weight_onchain_floored = math_floor onchain,
                   address = fst item,
                   address_weight_floored = math_floor (snd item),
                   need_review = review,
                   explorer_url = ''https://explorer.app5.org/address/'' @ fst item\<rparr>) wl
         else
           [\<lparr>nickname = name v, userid = user_id v,
             total_weight_metaforo = metaforo,
             total_weight_onchain_floored = math_floor onchain,
             address = [],
             address_weight_floored = 0,
             need_review = review,
             explorer_url = []\<rparr>])"

definition export_data :: "vote list \<Rightarrow> export_row list" where
  "export_data voters_data = concat (map export_vote voters_data)"

text \<open>
  \<^verbatim>\<open>process_option\<close>, up to the export data it hands to the JSON and CSV writers. The result
  \<open>None\<close> is the \<^verbatim>\<open>None\<close> it returns for an option without vote data; the printing and the
  writing of the files are not modelled.
\<close>

definition process_option ::
  "world \<Rightarrow> int \<Rightarrow> trace \<Rightarrow> ((exn + export_row list option) \<times> trace) option"
where
  "process_option w option_id tr =
     (case get_all_votes w option_id tr of
        None \<Rightarrow> None
      | Some (Inl e, tr') \<Rightarrow> Some (Inl e, tr')
      | Some (Inr None, tr') \<Rightarrow> Some (Inr None, tr')
      | Some (Inr (Some voters_data), tr') \<Rightarrow>
          if voters_data = [] then Some (Inr None, tr')
          else
            (case enrich_votes w voters_data tr' of
               None \<Rightarrow> None
             | Some (Inl e, tr'') \<Rightarrow> Some (Inl e, tr'')
             | Some (Inr enriched, tr'') \<Rightarrow> Some (Inr (Some (export_data enriched)), tr'')))"

section \<open>The loop over the options of a poll\<close>

text \<open>
  The loop \<^verbatim>\<open>for option in options\<close> of \<^verbatim>\<open>main\<close>, over the identifiers of the options. The
  source collects the paths of the files written for each option; the model collects the
  option with its export data instead.
\<close>

fun process_options ::
  "world \<Rightarrow> int list \<Rightarrow> (int \<times> export_row list) list \<Rightarrow> trace \<Rightarrow>
   ((exn + (int \<times> export_row list) list) \<times> trace) option"
where
  "process_options w [] all_files tr = Some (Inr all_files, tr)"
| "process_options w (option_id # rest) all_files tr =
     (case process_option w option_id tr of
        None \<Rightarrow> None
      | Some (Inl e, tr') \<Rightarrow> Some (Inl e, tr')
      | Some (Inr None, tr') \<Rightarrow> process_options w rest all_files tr'
      | Some (Inr (Some files), tr') \<Rightarrow>
          process_options w rest (all_files @ [(option_id, files)]) tr')"

section \<open>Notions used in the statements\<close>

text \<open>The method names that \<^verbatim>\<open>request_with_retry\<close> accepts, after \<^verbatim>\<open>lower()\<close>.\<close>

fun method_name :: "http_method \<Rightarrow> string" where
  "method_name GET = ''get''"
| "method_name POST = ''post''"

text \<open>An attempt that ended in an error which \<^verbatim>\<open>is_retryable_error\<close> accepts.\<close>

definition retryable_failure :: "exn + 'r \<Rightarrow> bool" where
  "retryable_failure x = (case x of Inl e \<Rightarrow> is_retryable_error e | Inr _ \<Rightarrow> False)"

text \<open>A reply with status 200 and a JSON body, and a success envelope.\<close>

definition ok :: "'b \<Rightarrow> 'b reply" where
  "ok b = Returns \<lparr>status_code = 200, body = Some b\<rparr>"

definition success :: "'a \<Rightarrow> 'a envelope" where
  "success a = \<lparr>status = True, code = 20000, data = a\<rparr>"

text \<open>The requests for the pages 1 to \<open>n\<close> of a vote list and of the cells of an address.\<close>

definition vote_requests :: "int \<Rightarrow> nat \<Rightarrow> trace" where
  "vote_requests option_id n = map (\<lambda>p. (POST, PollList option_id p)) [1..<Suc n]"

definition cell_requests :: "string \<Rightarrow> nat \<Rightarrow> nat \<Rightarrow> trace" where
  "cell_requests addr page_size n = map (\<lambda>p. (GET, AddressLiveCells addr p page_size)) [1..<Suc n]"

text \<open>A page of a listing, pages counted from 1.\<close>

definition page_of :: "'a list \<Rightarrow> nat \<Rightarrow> nat \<Rightarrow> 'a list" where
  "page_of xs page page_size = take page_size (drop ((page - 1) * page_size) xs)"

text \<open>
  The deposit cells, the whole number of shannons that a capacity stands for, if it stands
  for one, and the exact sum of the capacities of the deposit cells, over a list and over
  a multiset of cells.
\<close>

definition is_deposit :: "cell \<Rightarrow> bool" where
  "is_deposit c = (cell_type c = ''nervos_dao_deposit'')"

fun shannons :: "capacity_json \<Rightarrow> nat option" where
  "shannons Missing = Some 0"
| "shannons (Integer n) = Some n"
| "shannons (Digits n) = Some n"
| "shannons _ = None"

definition whole_capacity :: "cell \<Rightarrow> bool" where
  "whole_capacity c = (shannons (capacity c) \<noteq> None)"

definition shannons_of :: "cell \<Rightarrow> nat" where
  "shannons_of c = (case shannons (capacity c) of None \<Rightarrow> 0 | Some n \<Rightarrow> n)"

definition deposit_sum :: "cell list \<Rightarrow> nat" where
  "deposit_sum cells = sum_list (map shannons_of (filter is_deposit cells))"

definition deposit_total :: "cell multiset \<Rightarrow> nat" where
  "deposit_total cells = sum_mset (image_mset shannons_of (filter_mset is_deposit cells))"

text \<open>The reported weight of a vote, and the vote of a voter without addresses.\<close>

definition reported :: "vote \<Rightarrow> int" where
  "reported v = (case weight v of None \<Rightarrow> 0 | Some n \<Rightarrow> n)"

definition no_addresses :: "vote \<Rightarrow> vote" where
  "no_addresses v = v\<lparr>weight_list := Some [], weight_calc := Some 0\<rparr>"

text \<open>The one row exported for a vote without addresses.\<close>

definition sentinel_row :: "vote \<Rightarrow> export_row" where
  "sentinel_row v =
     \<lparr>nickname = name v, userid = user_id v,
      total_weight_metaforo = reported v,
      total_weight_onchain_floored = 0,
      address = [],
      address_weight_floored = 0,
      need_review = (reported v \<noteq> 0),
      explorer_url = []\<rparr>"

text \<open>
  The address list of the claim: the native addresses, followed by the derived address
  unless it is among them.
\<close>

definition with_derived :: "string list \<Rightarrow> string \<Rightarrow> string list" where
  "with_derived native derived = (if derived \<in> set native then native else native @ [derived])"

text \<open>
  A run of the loop over the options that raises nothing: from the trace \<open>tr\<close> the options
  are taken in order; an option whose vote listing gives \<^verbatim>\<open>None\<close> or no votes adds no batch,
  an option with votes adds the export data of its enriched votes; \<open>t\<close> is the trace at the
  end.
\<close>

inductive options_run ::
  "world \<Rightarrow> int list \<Rightarrow> trace \<Rightarrow> (int \<times> export_row list) list \<Rightarrow> trace \<Rightarrow> bool"
  for w :: world
where
  finished: "options_run w [] tr [] tr"
| skipped:
    "get_all_votes w oid tr = Some (Inr votes, t1) \<Longrightarrow> votes = None \<or> votes = Some [] \<Longrightarrow>
     options_run w rest t1 bs t \<Longrightarrow> options_run w (oid # rest) tr bs t"
| exported:
    "get_all_votes w oid tr = Some (Inr (Some votes), t0) \<Longrightarrow> votes \<noteq> [] \<Longrightarrow>
     enrich_votes w votes t0 = Some (Inr enriched, t1) \<Longrightarrow>
     options_run w rest t1 bs t \<Longrightarrow>
     options_run w (oid # rest) tr ((oid, export_data enriched) # bs) t"

section \<open>Worlds for the examples\<close>

text \<open>A service that answers every request with the same status code and no JSON body.\<close>

definition status_server :: "nat \<Rightarrow> http_method \<Rightarrow> trace \<Rightarrow> 'b reply" where
  "status_server sc m t = Returns \<lparr>status_code = sc, body = None\<rparr>"

text \<open>
  A world whose services answer by the parameters of the request alone; its address
  encoder writes the bytes in hexadecimal after \<^verbatim>\<open>ckb1\<close>.
\<close>

definition hex_of_byte :: "nat \<Rightarrow> string" where
  "hex_of_byte b = [''0123456789abcdef'' ! (b div 16), ''0123456789abcdef'' ! (b mod 16)]"

definition stateless_world ::
  "(int \<Rightarrow> nat \<Rightarrow> vote list envelope reply) \<Rightarrow> (int \<Rightarrow> user envelope reply) \<Rightarrow>
   (string \<Rightarrow> nat \<Rightarrow> nat \<Rightarrow> cell list reply) \<Rightarrow> world"
where
  "stateless_world votes users cells =
     \<lparr>poll_list = (\<lambda>option_id page m t. votes option_id page),
      profile = (\<lambda>uid m t. users uid),
      address_live_cells = (\<lambda>addr page page_size m t. cells addr page page_size),
      script_addr = (\<lambda>args. ''ckb1'' @ concat (map hex_of_byte args))\<rparr>"

definition voter :: "int \<Rightarrow> int \<Rightarrow> vote" where
  "voter uid n =
     \<lparr>user_id = Some uid, name = ''voter'', last_time = ''2025'', weight = Some n,
      weight_list = None, weight_calc = None\<rparr>"

definition anonymous_vote :: vote where
  "anonymous_vote =
     \<lparr>user_id = None, name = ''anonymous'', last_time = ''2025'', weight = Some 50,
      weight_list = None, weight_calc = None\<rparr>"

definition no_profile :: user where
  "no_profile = \<lparr>neuron_addresses = [], web3_public_key = []\<rparr>"

definition two_addresses :: user where
  "two_addresses = \<lparr>neuron_addresses = [''ckb1qa'', ''ckb1qb''], web3_public_key = []\<rparr>"

text \<open>A deposit cell as the explorer lists it, with its capacity as a string of digits.\<close>

definition deposit :: "nat \<Rightarrow> cell" where
  "deposit n = \<lparr>cell_type = ''nervos_dao_deposit'', capacity = Digits n\<rparr>"

definition paging_world :: world where
  "paging_world =
     stateless_world
       (\<lambda>option_id page.
          ok (success (page_of (map (\<lambda>i. voter i 100) [1, 2, 3, 4, 5, 6, 7, 8, 9, 10]) page 5)))
       (\<lambda>uid. ok (success no_profile))
       (\<lambda>addr page page_size. ok (page_of (replicate 47 (deposit 200000000)) page page_size))"

definition failing_votes_world :: world where
  "failing_votes_world =
     stateless_world
       (\<lambda>option_id page.
          if page = 1 then ok (success (map (\<lambda>i. voter i 100) [1, 2, 3, 4, 5]))
          else Returns \<lparr>status_code = 404, body = None\<rparr>)
       (\<lambda>uid. ok (success no_profile))
       (\<lambda>addr page page_size. ok [])"





definition whale_world :: world where
  "whale_world =
     stateless_world
       (\<lambda>option_id page. ok (success []))
       (\<lambda>uid. ok (success no_profile))
       (\<lambda>addr page page_size. ok (page_of [deposit 10000000099999999] page page_size))"

definition mixed_cells :: "cell list" where
  "mixed_cells =
     replicate 25 (deposit 150000000) @
     replicate 22 \<lparr>cell_type = ''normal_ckb_cell'', capacity = Digits 6100000000\<rparr>"

definition mixed_world :: world where
  "mixed_world =
     stateless_world
       (\<lambda>option_id page. ok (success []))
       (\<lambda>uid. ok (success no_profile))
       (\<lambda>addr page page_size. ok (page_of mixed_cells page page_size))"




definition split_world :: world where
  "split_world =
     stateless_world
       (\<lambda>option_id page. if page = 1 then ok (success [voter 7 3]) else ok (success []))
       (\<lambda>uid. ok (success two_addresses))
       (\<lambda>addr page page_size. ok (page_of [deposit 150000000] page page_size))"

text \<open>
  A poll option with three votes: one without identifier, one of voter 7 with two addresses,
  one with the identifier 0.
\<close>

definition mixed_votes_world :: world where
  "mixed_votes_world =
     stateless_world
       (\<lambda>option_id page.
          if page = 1 then ok (success [anonymous_vote, voter 7 3, voter 0 0]) else ok (success []))
       (\<lambda>uid. ok (success two_addresses))
       (\<lambda>addr page page_size. ok (page_of [deposit 150000000] page page_size))"

definition bridge_world :: world where
  "bridge_world =
     stateless_world
       (\<lambda>option_id page. ok (success []))
       (\<lambda>uid.
          if uid = 7 then ok (success \<lparr>neuron_addresses = [''ckb1qa''], web3_public_key = ''0xAB12''\<rparr>)
          else if uid = 8 then
            ok (success \<lparr>neuron_addresses = [''ckb1ab12''], web3_public_key = ''0xAB12''\<rparr>)
          else Returns \<lparr>status_code = 404, body = None\<rparr>)
       (\<lambda>addr page page_size. ok [])"

definition duplicate_world :: world where
  "duplicate_world =
     stateless_world
       (\<lambda>option_id page. ok (success []))
       (\<lambda>uid. ok (success \<lparr>neuron_addresses = [''ckb1qa'', ''ckb1qa''], web3_public_key = []\<rparr>))
       (\<lambda>addr page page_size. ok [])"

text \<open>A profile whose foreign-chain key is not hexadecimal.\<close>

definition bad_key_world :: world where
  "bad_key_world =
     stateless_world
       (\<lambda>option_id page. ok (success []))
       (\<lambda>uid. ok (success \<lparr>neuron_addresses = [''ckb1qa''], web3_public_key = ''0xZZ''\<rparr>))
       (\<lambda>addr page page_size. ok [])"

text \<open>
  A poll whose first option has one vote, of a voter whose foreign-chain key is not
  hexadecimal.
\<close>

definition raising_world :: world where
  "raising_world =
     stateless_world
       (\<lambda>option_id page.
          if option_id = 1 \<and> page = 1 then ok (success [voter 7 3]) else ok (success []))
       (\<lambda>uid. ok (success \<lparr>neuron_addresses = [''ckb1qa''], web3_public_key = ''0xZZ''\<rparr>))
       (\<lambda>addr page page_size. ok [])"

text \<open>A poll with two options, the first without votes.\<close>

definition two_options_world :: world where
  "two_options_world =
     stateless_world
       (\<lambda>option_id page.
          if option_id = 2 \<and> page = 1 then ok (success [anonymous_vote]) else ok (success []))
       (\<lambda>uid. ok (success no_profile))
       (\<lambda>addr page page_size. ok [])"

definition two_options_trace :: trace where
  "two_options_trace = [(POST, PollList 1 1), (POST, PollList 2 1), (POST, PollList 2 2)]"

section \<open>Facts about the float model\<close>

lemma bit_length_less: "bit_length n \<le> k \<longleftrightarrow> n < 2 ^ k"
proof (induction n arbitrary: k rule: bit_length.induct)
  case (1 n)
  show ?case
  proof (cases "n = 0")
    case True
    then show ?thesis by (simp add: bit_length.simps)
  next
    case False
    note IH = 1[OF False]
    show ?thesis
    proof (cases k)
      case 0
      with False show ?thesis by (simp add: bit_length.simps)
    next
      case (Suc j)
      have "bit_length n \<le> Suc j \<longleftrightarrow> bit_length (n div 2) \<le> j"
        using False by (subst bit_length.simps) simp
      also have "\<dots> \<longleftrightarrow> n div 2 < 2 ^ j" by (rule IH)
      also have "\<dots> \<longleftrightarrow> n < 2 ^ Suc j" by auto
      finally show ?thesis unfolding Suc .
    qed
  qed
qed

lemma bit_length_eqI: "2 ^ k \<le> n \<Longrightarrow> n < 2 ^ Suc k \<Longrightarrow> bit_length n = Suc k"
proof -
  assume "2 ^ k \<le> n" and "n < 2 ^ Suc k"
  then have "\<not> bit_length n \<le> k" and "bit_length n \<le> Suc k"
    unfolding bit_length_less by simp_all
  then show ?thesis by simp
qed

lemma bit_length_1e8: "bit_length (10 ^ 8) = 27"
proof -
  have "bit_length (10 ^ 8) = Suc 26" by (rule bit_length_eqI) simp_all
  then show ?thesis by simp
qed

lemma round_half_even_cases:
  "round_half_even n d = n div d \<or> (round_half_even n d = n div d + 1 \<and> d \<le> 2 * (n mod d))"
  by (simp add: round_half_even_def Let_def)

lemma round_half_even_lower: "n div d \<le> round_half_even n d"
  using round_half_even_cases[of n d] by auto

lemma round_half_even_upper: "2 * (round_half_even n d * d) \<le> 2 * n + d"
proof -
  define q where "q = n div d"
  define r where "r = n mod d"
  define m where "m = round_half_even n d"
  have n: "n = q * d + r" by (simp add: q_def r_def)
  have c: "m = q \<or> (m = q + 1 \<and> d \<le> 2 * r)"
    unfolding m_def q_def r_def by (rule round_half_even_cases)
  have "2 * (m * d) \<le> 2 * (q * d + r) + d"
  proof (cases "m = q")
    case True
    then show ?thesis by simp
  next
    case False
    with c have "m = q + 1" and "d \<le> 2 * r" by auto
    then show ?thesis by simp
  qed
  then show ?thesis using n m_def by simp
qed

lemma quotient_exponent_le:
  "quotient_exponent a b \<le> int (bit_length a) - int (bit_length b) - 52"
  by (simp add: quotient_exponent_def Let_def)

text \<open>Rounding a quotient scaled by P and dividing by P again, when the divisor is below 2 P.\<close>

lemma scaled_round_floor:
  fixes a b P :: nat
  assumes b: "0 < b" and P: "b < 2 * P"
  shows "round_half_even (a * P) b div P = a div b"
proof -
  define Q where "Q = a div b"
  define R where "R = a mod b"
  define m where "m = round_half_even (a * P) b"
  have a: "a = Q * b + R" by (simp add: Q_def R_def)
  have R: "R < b" using b by (simp add: R_def)
  have P0: "0 < P" using b P by simp
  have "(Q * P) * b \<le> a * P" 
  proof -
    have "Q * b \<le> a" using a by simp
    then have "(Q * b) * P \<le> a * P" by (rule mult_le_mono1)
    then show ?thesis by (simp add: mult.assoc mult.commute)
  qed
  then have "Q * P \<le> (a * P) div b" using b by (simp add: less_eq_div_iff_mult_less_eq)
  also have "\<dots> \<le> m" unfolding m_def by (rule round_half_even_lower)
  finally have lower: "P * Q \<le> m" by (simp add: mult.commute)
  have up: "2 * (m * b) \<le> 2 * (a * P) + b"
    unfolding m_def by (rule round_half_even_upper)
  have "Suc R \<le> b" using R by simp
  then have "Suc R * P \<le> b * P" by (rule mult_le_mono1)
  then have RP: "R * P + P \<le> b * P" by simp
  have aP: "a * P = Q * b * P + R * P" by (subst a) (simp add: algebra_simps)
  have "2 * (m * b) < 2 * (Q * b * P + b * P)"
    using up aP RP P by simp
  also have "\<dots> = 2 * ((P * Suc Q) * b)" by (simp add: algebra_simps)
  finally have "m * b < (P * Suc Q) * b" by simp
  then have upper: "m < P * Suc Q" by simp
  show ?thesis using lower upper P0 unfolding m_def[symmetric] Q_def[symmetric]
    by (intro div_nat_eqI) auto
qed

lemma floor_finite_div_exact:
  assumes "a < 2 ^ 53"
  shows "floor_finite_div a (10 ^ 8) = int (a div 10 ^ 8)"
proof (cases "a = 0")
  case True
  then show ?thesis by (simp add: floor_finite_div_def)
next
  case False
  define s where "s = quotient_exponent a (10 ^ 8)"
  define k where "k = nat (- s)"
  have "bit_length a \<le> 53" using assms by (simp add: bit_length_less)
  then have "s \<le> - 26"
    using quotient_exponent_le[of a "10 ^ 8"] unfolding s_def bit_length_1e8 by simp
  then have s: "s < 0" and k: "26 \<le> k" by (simp_all add: k_def)
  have "(2::nat) ^ 27 \<le> 2 ^ Suc k"
    by (rule power_increasing) (use k in simp_all)
  moreover have "(10::nat) ^ 8 < 2 ^ 27" by simp
  ultimately have "(10::nat) ^ 8 < 2 ^ Suc k" by (rule less_le_trans[rotated])
  then have P: "(10::nat) ^ 8 < 2 * 2 ^ k" by (simp only: power_Suc)
  have "floor_finite_div a (10 ^ 8) = int (round_half_even (a * 2 ^ k) (10 ^ 8) div 2 ^ k)"
    unfolding floor_finite_div_def Let_def s_def[symmetric] scaled_num_def scaled_den_def
    using False s by (simp add: k_def)
  also have "round_half_even (a * 2 ^ k) (10 ^ 8) div 2 ^ k = a div 10 ^ 8"
    using P by (intro scaled_round_floor) simp_all
  finally show ?thesis .
qed

lemma floor_float_div_exact:
  "a < 2 ^ 53 \<Longrightarrow> floor_float_div (Finite a) (10 ^ 8) = Inr (int (a div 10 ^ 8))"
  using floor_finite_div_exact[of a] by simp

lemma round_to_double_exact: "n < 2 ^ 53 \<Longrightarrow> round_to_double n = n"
  using bit_length_less[of n 53] by (simp add: round_to_double_def Let_def)

lemma float_of_nat_exact: "n < 2 ^ 53 \<Longrightarrow> float_of_nat n = Finite n"
proof -
  assume n: "n < 2 ^ 53"
  have "(2::nat) ^ 53 \<le> 2 ^ 1024" by (rule power_increasing) simp_all
  with n have "n < 2 ^ 1024" by (rule less_le_trans)
  with n show ?thesis by (simp add: float_of_nat_def round_to_double_exact Let_def)
qed

lemma float_add_exact:
  "a + b < 2 ^ 53 \<Longrightarrow> float_add (Finite a) (float_of_nat b) = Finite (a + b)"
  by (simp add: float_of_nat_exact)

lemma python_float_whole:
  "shannons c = Some n \<Longrightarrow> n < 2 ^ 53 \<Longrightarrow> python_float c = Inr (Finite n)"
  by (cases c) (auto simp add: float_of_nat_exact)


section \<open>Facts about the request executor\<close>

lemma lower_get: "lower ''GET'' = ''get''" "lower ''get'' = ''get''" "lower ''post'' = ''post''" "lower ''Post'' = ''post''"
  "lower ''put'' = ''put''"
  by (simp_all add: lower_def lower_char_def)

lemma is_retryable_error_iff:
  "is_retryable_error e \<longleftrightarrow>
     e = RequestException ConnectionError \<or> e = RequestException Timeout \<or>
     (\<exists>s. e = RequestException (HTTPError (Some s)) \<and> (s = 429 \<or> 500 \<le> s))"
  by (cases e rule: is_retryable_error.cases) auto

lemma attempt_request_valid:
  assumes "lower method = method_name m"
  shows "attempt_request method u tr =
     (case server u m tr of Raises e \<Rightarrow> Inl (RequestException e) | Returns r \<Rightarrow> raise_for_status r,
      tr @ [(m, endpoint u)])"
  using assms
  by (cases m) (auto simp: attempt_request_def requests_call_def split: reply.splits)

lemma attempt_request_invalid:
  assumes "lower method \<noteq> ''get''" "lower method \<noteq> ''post''"
  shows "attempt_request method u tr = (Inl ValueError, tr)"
  using assms by (simp add: attempt_request_def)

lemma attempt_request_not_TypeError:
  "fst (attempt_request method u tr) \<noteq> Inl TypeError"
  by (auto simp: attempt_request_def requests_call_def raise_for_status_def split: reply.splits)

lemma request_loop_run:
  assumes m: "lower method = method_name m"
    and "i + k \<le> n"
    and "\<forall>j<k. retryable_failure (fst (attempt_request method u (tr @ replicate j (m, endpoint u))))"
    and "i + k = n \<or> \<not> retryable_failure (fst (attempt_request method u (tr @ replicate k (m, endpoint u))))"
  shows "request_loop method u n [i..<Suc n] last_exception tr =
         attempt_request method u (tr @ replicate k (m, endpoint u))"
  using assms(2-)
proof (induction k arbitrary: i tr last_exception)
  case 0
  then have i: "[i..<Suc n] = i # [Suc i..<Suc n]" by (simp add: upt_conv_Cons)
  from 0 have stop: "i = n \<or> \<not> retryable_failure (fst (attempt_request method u tr))" by simp
  obtain r t where a: "attempt_request method u tr = (r, t)" by (cases "attempt_request method u tr")
  show ?case
  proof (cases r)
    case (Inr resp)
    then show ?thesis using a i by simp
  next
    case (Inl e)
    then show ?thesis using a i stop
      by (cases e) (auto simp: retryable_failure_def)
  qed
next
  case (Suc k)
  then have i: "[i..<Suc n] = i # [Suc i..<Suc n]" and lt: "i < n" by (simp_all add: upt_conv_Cons)
  from Suc.prems(2) have "retryable_failure (fst (attempt_request method u (tr @ replicate 0 (m, endpoint u))))"
    by blast
  then have rf: "retryable_failure (fst (attempt_request method u tr))" by simp
  have sn: "snd (attempt_request method u tr) = tr @ [(m, endpoint u)]"
    by (simp add: attempt_request_valid[OF m])
  obtain e where e: "attempt_request method u tr = (Inl (RequestException e), tr @ [(m, endpoint u)])"
    and re: "is_retryable_error (RequestException e)"
    using rf sn
    by (cases "attempt_request method u tr"; cases "fst (attempt_request method u tr)")
       (auto simp: retryable_failure_def elim: is_retryable_error.elims)
  have shift: "\<And>j. (tr @ [(m, endpoint u)]) @ replicate j (m, endpoint u) = tr @ replicate (Suc j) (m, endpoint u)"
    by (simp add: replicate_append_same)
  have "request_loop method u n [i..<Suc n] last_exception tr =
        request_loop method u n [Suc i..<Suc n] (Some (RequestException e)) (tr @ [(m, endpoint u)])"
    using e re lt i by simp
  also have "\<dots> = attempt_request method u ((tr @ [(m, endpoint u)]) @ replicate k (m, endpoint u))"
  proof (rule Suc.IH)
    show "Suc i + k \<le> n" using Suc.prems(1) by simp
    show "\<forall>j<k. retryable_failure (fst (attempt_request method u ((tr @ [(m, endpoint u)]) @ replicate j (m, endpoint u))))"
      using Suc.prems(2) unfolding shift by auto
    show "Suc i + k = n \<or> \<not> retryable_failure (fst (attempt_request method u ((tr @ [(m, endpoint u)]) @ replicate k (m, endpoint u))))"
      using Suc.prems(3) unfolding shift by simp
  qed
  finally show ?case unfolding shift .
qed

lemma request_with_retry_run:
  assumes m: "lower method = method_name m"
    and "k \<le> n"
    and "\<forall>j<k. retryable_failure (fst (attempt_request method u (tr @ replicate j (m, endpoint u))))"
    and "k = n \<or> \<not> retryable_failure (fst (attempt_request method u (tr @ replicate k (m, endpoint u))))"
  shows "request_with_retry method u n tr =
         attempt_request method u (tr @ replicate k (m, endpoint u))"
  unfolding request_with_retry_def using request_loop_run[OF m, of 0 k n u tr None] assms(2-)
  by simp

lemma request_with_retry_invalid:
  assumes "lower method \<noteq> ''get''" "lower method \<noteq> ''post''"
  shows "request_with_retry method u n tr = (Inl ValueError, tr)"
  unfolding request_with_retry_def
  by (simp add: upt_conv_Cons attempt_request_invalid[OF assms] del: upt_Suc)

text \<open>
  Claim C5. \<^verbatim>\<open>is_retryable_error\<close> accepts exactly a connection error, a timeout and an HTTP
  error with status 429 or at least 500, and the retry budget is 3. With a supported method,
  \<^verbatim>\<open>request_with_retry\<close> makes one more attempt exactly after each attempt that failed
  retryably while fewer than \<open>max_retries\<close> retries were made: if the first \<open>k\<close> attempts fail
  retryably and attempt \<open>k + 1\<close> does not, or \<open>k\<close> is \<open>max_retries\<close>, it makes exactly
  \<open>k + 1\<close> attempts and ends as that last attempt ended, returning its response or raising its
  error unchanged. So an endpoint that always fails retryably gets \<open>max_retries + 1\<close> attempts
  and a failure that is not retryable gets one. An unsupported method raises \<^verbatim>\<open>ValueError\<close>
  at once, before any request is sent.
\<close>

theorem request_with_retry_policy:
  fixes u :: "'b url"
  shows
  "(is_retryable_error e \<longleftrightarrow>
      e = RequestException ConnectionError \<or> e = RequestException Timeout \<or>
      (\<exists>s. e = RequestException (HTTPError (Some s)) \<and> (s = 429 \<or> 500 \<le> s))) \<and>
   MAX_RETRIES = 3 \<and>
   (lower method = method_name m \<and> k \<le> n \<and>
    (\<forall>j<k. retryable_failure (fst (attempt_request method u (tr @ replicate j (m, endpoint u))))) \<and>
    (k = n \<or> \<not> retryable_failure (fst (attempt_request method u (tr @ replicate k (m, endpoint u)))))
    \<longrightarrow> request_with_retry method u n tr =
         (fst (attempt_request method u (tr @ replicate k (m, endpoint u))),
          tr @ replicate (Suc k) (m, endpoint u))) \<and>
   (lower method \<noteq> ''get'' \<and> lower method \<noteq> ''post''
    \<longrightarrow> request_with_retry method u n tr = (Inl ValueError, tr))"
proof (intro conjI impI)
  show "is_retryable_error e \<longleftrightarrow>
      e = RequestException ConnectionError \<or> e = RequestException Timeout \<or>
      (\<exists>s. e = RequestException (HTTPError (Some s)) \<and> (s = 429 \<or> 500 \<le> s))"
    by (rule is_retryable_error_iff)
  show "MAX_RETRIES = 3" by (simp add: MAX_RETRIES_def)
next
  assume h: "lower method = method_name m \<and> k \<le> n \<and>
    (\<forall>j<k. retryable_failure (fst (attempt_request method u (tr @ replicate j (m, endpoint u))))) \<and>
    (k = n \<or> \<not> retryable_failure (fst (attempt_request method u (tr @ replicate k (m, endpoint u)))))"
  then have "request_with_retry method u n tr =
         attempt_request method u (tr @ replicate k (m, endpoint u))"
    by (intro request_with_retry_run) simp_all
  moreover have "snd (attempt_request method u (tr @ replicate k (m, endpoint u))) =
     tr @ replicate (Suc k) (m, endpoint u)"
    using h by (simp add: attempt_request_valid replicate_append_same)
  ultimately show "request_with_retry method u n tr =
         (fst (attempt_request method u (tr @ replicate k (m, endpoint u))),
          tr @ replicate (Suc k) (m, endpoint u))"
    by (metis prod.collapse)
next
  assume "lower method \<noteq> ''get'' \<and> lower method \<noteq> ''post''"
  then show "request_with_retry method u n tr = (Inl ValueError, tr)"
    by (simp add: request_with_retry_invalid)
qed

lemma attempt_status_server:
  "attempt_request ''get'' \<lparr>endpoint = ep, server = status_server sc\<rparr> t =
     (raise_for_status \<lparr>status_code = sc, body = None\<rparr>, t @ [(GET, ep)])"
  by (simp add: attempt_request_valid[where m = GET] lower_get status_server_def)

text \<open>
  The policy at three endpoints: one that always answers 500 (four attempts, then the
  \<^verbatim>\<open>HTTPError\<close> of the last one), one that answers 404 (one attempt), and a request with the
  method \<^verbatim>\<open>put\<close> (no attempt).
\<close>

theorem request_with_retry_policy_witness:
  "request_with_retry ''get'' (\<lparr>endpoint = Profile 7, server = status_server 500\<rparr> :: user envelope url) MAX_RETRIES [] =
     (Inl (RequestException (HTTPError (Some 500))), replicate 4 (GET, Profile 7)) \<and>
   request_with_retry ''get'' (\<lparr>endpoint = Profile 7, server = status_server 404\<rparr> :: user envelope url) MAX_RETRIES [] =
     (Inl (RequestException (HTTPError (Some 404))), [(GET, Profile 7)]) \<and>
   request_with_retry ''put'' (\<lparr>endpoint = Profile 7, server = status_server 200\<rparr> :: user envelope url) MAX_RETRIES [] =
     (Inl ValueError, [])"
proof (intro conjI)
  let ?u = "\<lparr>endpoint = Profile 7, server = status_server 500\<rparr> :: user envelope url"
  have "lower ''get'' = method_name GET \<and> 3 \<le> MAX_RETRIES \<and>
    (\<forall>j<3. retryable_failure (fst (attempt_request ''get'' ?u ([] @ replicate j (GET, endpoint ?u))))) \<and>
    (3 = MAX_RETRIES \<or> \<not> retryable_failure (fst (attempt_request ''get'' ?u ([] @ replicate 3 (GET, endpoint ?u)))))"
    by (simp add: lower_get MAX_RETRIES_def attempt_status_server raise_for_status_def retryable_failure_def)
  with request_with_retry_policy[of _ "''get''" GET 3 MAX_RETRIES ?u "[]"]
  have "request_with_retry ''get'' ?u MAX_RETRIES [] =
         (fst (attempt_request ''get'' ?u ([] @ replicate 3 (GET, endpoint ?u))),
          [] @ replicate (Suc 3) (GET, endpoint ?u))"
    by blast
  then show "request_with_retry ''get'' ?u MAX_RETRIES [] =
     (Inl (RequestException (HTTPError (Some 500))), replicate 4 (GET, Profile 7))"
    by (simp add: attempt_status_server raise_for_status_def numeral_eq_Suc)
next
  let ?u = "\<lparr>endpoint = Profile 7, server = status_server 404\<rparr> :: user envelope url"
  have "lower ''get'' = method_name GET \<and> 0 \<le> MAX_RETRIES \<and>
    (\<forall>j<0. retryable_failure (fst (attempt_request ''get'' ?u ([] @ replicate j (GET, endpoint ?u))))) \<and>
    (0 = MAX_RETRIES \<or> \<not> retryable_failure (fst (attempt_request ''get'' ?u ([] @ replicate 0 (GET, endpoint ?u)))))"
    by (simp add: lower_get attempt_status_server raise_for_status_def retryable_failure_def)
  with request_with_retry_policy[of _ "''get''" GET 0 MAX_RETRIES ?u "[]"]
  have "request_with_retry ''get'' ?u MAX_RETRIES [] =
         (fst (attempt_request ''get'' ?u ([] @ replicate 0 (GET, endpoint ?u))),
          [] @ replicate (Suc 0) (GET, endpoint ?u))"
    by blast
  then show "request_with_retry ''get'' ?u MAX_RETRIES [] =
     (Inl (RequestException (HTTPError (Some 404))), [(GET, Profile 7)])"
    by (simp add: attempt_status_server raise_for_status_def)
next
  let ?u = "\<lparr>endpoint = Profile 7, server = status_server 200\<rparr> :: user envelope url"
  have "lower ''put'' \<noteq> ''get'' \<and> lower ''put'' \<noteq> ''post''"
    by (simp add: lower_get)
  with request_with_retry_policy[of _ "''put''" _ _ MAX_RETRIES ?u "[]"]
  show "request_with_retry ''put'' ?u MAX_RETRIES [] = (Inl ValueError, [])"
    by blast
qed

section \<open>Facts about the two paginators\<close>

lemma request_with_retry_ok:
  assumes "lower mname = method_name m" and "server u m tr = ok b"
  shows "request_with_retry mname u n tr =
         (Inr \<lparr>status_code = 200, body = Some b\<rparr>, tr @ [(m, endpoint u)])"
proof -
  have a: "attempt_request mname u tr = (Inr \<lparr>status_code = 200, body = Some b\<rparr>, tr @ [(m, endpoint u)])"
    using assms by (simp add: attempt_request_valid ok_def raise_for_status_def)
  have "request_with_retry mname u n tr = attempt_request mname u (tr @ replicate 0 (m, endpoint u))"
    by (rule request_with_retry_run[OF assms(1)]) (simp_all add: a retryable_failure_def)
  then show ?thesis using a by simp
qed

lemma request_loop_exn:
  assumes "lower method = method_name m"
    and "last_exception = None \<longrightarrow> xs \<noteq> []"
    and "\<forall>e. last_exception = Some e \<longrightarrow> (\<exists>e'. e = RequestException e')"
    and "fst (request_loop method u n xs last_exception tr) = Inl e"
  shows "\<exists>e'. e = RequestException e'"
  using assms(2-)
proof (induction xs arbitrary: last_exception tr)
  case Nil
  then show ?case by (auto split: option.splits)
next
  case (Cons attempt rest)
  obtain r t where a: "attempt_request method u tr = (r, t)" by (cases "attempt_request method u tr")
  have nv: "r \<noteq> Inl ValueError" "r \<noteq> Inl TypeError" "r \<noteq> Inl OverflowError"
    using a assms(1)
    by (auto simp: attempt_request_valid raise_for_status_def split: reply.splits if_splits)
  show ?case
  proof (cases r)
    case (Inr resp)
    with Cons.prems a show ?thesis by simp
  next
    case (Inl x)
    with nv obtain e' where x: "x = RequestException e'" by (cases x) auto
    show ?thesis
    proof (cases "attempt < n \<and> is_retryable_error (RequestException e')")
      case True
      then have "request_loop method u n (attempt # rest) last_exception tr =
                 request_loop method u n rest (Some (RequestException e')) t"
        using a Inl x by simp
      with Cons.prems(3) have "fst (request_loop method u n rest (Some (RequestException e')) t) = Inl e"
        by simp
      then show ?thesis by (rule Cons.IH[rotated 2]) simp_all
    next
      case False
      then have "request_loop method u n (attempt # rest) last_exception tr = (Inl (RequestException e'), t)"
        using a Inl x by auto
      then have "fst (request_loop method u n (attempt # rest) last_exception tr) =
                 Inl (RequestException e')"
        by (simp only: fst_conv)
      with Cons.prems(3) have "e = RequestException e'" by (simp only: sum.inject)
      then show ?thesis by blast
    qed
  qed
qed

lemma request_with_retry_exn:
  assumes "lower method = method_name m"
    and "request_with_retry method u n tr = (Inl e, t)"
  shows "\<exists>e'. e = RequestException e'"
proof -
  have "fst (request_loop method u n [0..<n + 1] None tr) = Inl e"
    using assms(2) unfolding request_with_retry_def by (simp only: fst_conv)
  then show ?thesis
    by (rule request_loop_exn[OF assms(1), rotated 2]) simp_all
qed

lemma vote_requests_Suc:
  "vote_requests oid (Suc n) = vote_requests oid n @ [(POST, PollList oid (Suc n))]"
  by (simp add: vote_requests_def)

lemma cell_requests_Suc:
  "cell_requests a ps (Suc n) = cell_requests a ps n @ [(GET, AddressLiveCells a (Suc n) ps)]"
  by (simp add: cell_requests_def)

lemma votes_loop_page:
  assumes "poll_list w oid page POST tr = ok (success vs)"
  shows "get_all_votes_loop w oid acc page tr =
     (if vs = [] then Some (Inr (Some acc), tr @ [(POST, PollList oid page)])
      else get_all_votes_loop w oid (acc @ vs) (page + 1) (tr @ [(POST, PollList oid page)]))"
proof -
  have "request_with_retry ''post''
          \<lparr>endpoint = PollList oid page, server = poll_list w oid page\<rparr> MAX_RETRIES tr =
        (Inr \<lparr>status_code = 200, body = Some (success vs)\<rparr>, tr @ [(POST, PollList oid page)])"
    using request_with_retry_ok[where m = POST and mname = "''post''"
        and u = "\<lparr>endpoint = PollList oid page, server = poll_list w oid page\<rparr>"
        and tr = tr and b = "success vs"] assms
    by (simp add: lower_get)
  then show ?thesis
    by (subst get_all_votes_loop.simps) (simp add: response_json_def success_def)
qed

lemma votes_loop_fail:
  assumes "request_with_retry ''post''
          \<lparr>endpoint = PollList oid page, server = poll_list w oid page\<rparr> MAX_RETRIES tr = (Inl e, t)"
  shows "get_all_votes_loop w oid acc page tr = Some (Inr None, t)"
proof -
  obtain e' where "e = RequestException e'"
    using request_with_retry_exn[where m = POST, OF _ assms] by (auto simp: lower_get)
  then show ?thesis using assms
    by (subst get_all_votes_loop.simps) simp
qed

lemma votes_loop_refused:
  assumes "request_with_retry ''post''
          \<lparr>endpoint = PollList oid page, server = poll_list w oid page\<rparr> MAX_RETRIES tr = (Inr r, t)"
    and "\<forall>d. body r = Some d \<longrightarrow> \<not> (status d \<and> code d = 20000)"
  shows "get_all_votes_loop w oid acc page tr = Some (Inr None, t)"
  using assms
  by (subst get_all_votes_loop.simps) (auto simp: response_json_def split: option.splits)

lemma votes_loop_run:
  assumes "\<forall>p. k < p \<and> p \<le> k + d \<longrightarrow>
             P p \<noteq> [] \<and> (\<forall>t. poll_list w oid p POST t = ok (success (P p)))"
  shows "get_all_votes_loop w oid acc (Suc k) (tr @ vote_requests oid k) =
         get_all_votes_loop w oid (acc @ concat (map P [Suc k..<Suc (k + d)])) (Suc (k + d))
           (tr @ vote_requests oid (k + d))"
  using assms
proof (induction d)
  case 0
  then show ?case by simp
next
  case (Suc d)
  have good: "P (Suc (k + d)) \<noteq> []"
    "poll_list w oid (Suc (k + d)) POST (tr @ vote_requests oid (k + d)) = ok (success (P (Suc (k + d))))"
    using Suc.prems by simp_all
  have "get_all_votes_loop w oid acc (Suc k) (tr @ vote_requests oid k) =
        get_all_votes_loop w oid (acc @ concat (map P [Suc k..<Suc (k + d)])) (Suc (k + d))
           (tr @ vote_requests oid (k + d))"
    using Suc.prems by (intro Suc.IH) simp
  also have "\<dots> = get_all_votes_loop w oid ((acc @ concat (map P [Suc k..<Suc (k + d)])) @ P (Suc (k + d)))
           (Suc (k + d) + 1) ((tr @ vote_requests oid (k + d)) @ [(POST, PollList oid (Suc (k + d)))])"
    using good by (simp add: votes_loop_page)
  finally show ?case by (simp add: vote_requests_Suc)
qed

lemma cells_loop_page:
  assumes "address_live_cells w a page ps GET tr = ok cs"
  shows "address_cells_loop w a ps tot page tr =
     (case add_deposits tot cs of
        Inl e \<Rightarrow> Some (Inl e, tr @ [(GET, AddressLiveCells a page ps)])
      | Inr summed \<Rightarrow>
          if length cs < ps then Some (Inr summed, tr @ [(GET, AddressLiveCells a page ps)])
          else address_cells_loop w a ps summed (page + 1)
                 (tr @ [(GET, AddressLiveCells a page ps)]))"
proof -
  have "request_with_retry ''get''
          \<lparr>endpoint = AddressLiveCells a page ps, server = address_live_cells w a page ps\<rparr>
          MAX_RETRIES tr =
        (Inr \<lparr>status_code = 200, body = Some cs\<rparr>, tr @ [(GET, AddressLiveCells a page ps)])"
    using request_with_retry_ok[where m = GET and mname = "''get''"
        and u = "\<lparr>endpoint = AddressLiveCells a page ps, server = address_live_cells w a page ps\<rparr>"
        and tr = tr and b = cs] assms
    by (simp add: lower_get)
  then show ?thesis
    by (subst address_cells_loop.simps) (simp add: response_json_def Let_def)
qed


lemma cells_loop_no_json:
  assumes "request_with_retry ''get''
          \<lparr>endpoint = AddressLiveCells a page ps, server = address_live_cells w a page ps\<rparr>
          MAX_RETRIES tr = (Inr r, t)"
    and "body r = None"
  shows "address_cells_loop w a ps tot page tr = Some (Inr tot, t)"
  using assms
  by (subst address_cells_loop.simps) (simp add: response_json_def)

lemma add_deposits_append:
  "add_deposits tot (xs @ ys) =
     (case add_deposits tot xs of Inl e \<Rightarrow> Inl e | Inr summed \<Rightarrow> add_deposits summed ys)"
  by (induction xs arbitrary: tot) (simp_all split: sum.splits)

lemma add_deposits_append_Inr:
  "add_deposits tot xs = Inr summed \<Longrightarrow> add_deposits tot (xs @ ys) = add_deposits summed ys"
  by (simp add: add_deposits_append)

lemma add_deposits_append_Inl:
  "add_deposits tot xs = Inl e \<Longrightarrow> add_deposits tot (xs @ ys) = Inl e"
  by (simp add: add_deposits_append)

lemma upt_Suc_snoc: "[Suc k..<Suc (k + Suc d)] = [Suc k..<Suc (k + d)] @ [Suc (k + d)]"
  by simp

lemma concat_pages_Suc:
  "concat (map C [Suc k..<Suc (k + Suc d)]) = concat (map C [Suc k..<Suc (k + d)]) @ C (Suc (k + d))"
  by simp

text \<open>Full pages whose capacities all convert are read one after the other.\<close>

lemma cells_loop_run:
  assumes "\<forall>p. k < p \<and> p \<le> k + d \<longrightarrow>
             ps \<le> length (C p) \<and> (\<forall>t. address_live_cells w a p ps GET t = ok (C p))"
    and "add_deposits tot (concat (map C [Suc k..<Suc (k + d)])) = Inr summed"
  shows "address_cells_loop w a ps tot (Suc k) (tr @ cell_requests a ps k) =
         address_cells_loop w a ps summed (Suc (k + d)) (tr @ cell_requests a ps (k + d))"
  using assms
proof (induction d arbitrary: summed)
  case 0
  then show ?case by simp
next
  case (Suc d)
  have good: "ps \<le> length (C (Suc (k + d)))"
    "address_live_cells w a (Suc (k + d)) ps GET (tr @ cell_requests a ps (k + d)) = ok (C (Suc (k + d)))"
    using Suc.prems(1) by simp_all
  have whole: "add_deposits tot (concat (map C [Suc k..<Suc (k + d)]) @ C (Suc (k + d))) = Inr summed"
    using Suc.prems(2) by (simp only: concat_pages_Suc)
  then obtain part where part: "add_deposits tot (concat (map C [Suc k..<Suc (k + d)])) = Inr part"
    and last: "add_deposits part (C (Suc (k + d))) = Inr summed"
    by (auto simp: add_deposits_append split: sum.splits)
  have "address_cells_loop w a ps tot (Suc k) (tr @ cell_requests a ps k) =
        address_cells_loop w a ps part (Suc (k + d)) (tr @ cell_requests a ps (k + d))"
    using Suc.prems(1) part by (intro Suc.IH) simp_all
  also have "\<dots> = address_cells_loop w a ps summed
           (Suc (k + d) + 1) ((tr @ cell_requests a ps (k + d)) @ [(GET, AddressLiveCells a (Suc (k + d)) ps)])"
    using good last by (simp add: cells_loop_page)
  finally show ?case by (simp add: cell_requests_Suc)
qed

text \<open>
  When a capacity on one of the pages does not convert, the exception of \<^verbatim>\<open>float\<close> leaves the
  loop at the request for that page.
\<close>

lemma cells_loop_raise:
  assumes "\<forall>p. k < p \<and> p \<le> k + d \<longrightarrow> (\<forall>t. address_live_cells w a p ps GET t = ok (C p))"
    and "\<forall>p. k < p \<and> p < k + d \<longrightarrow> ps \<le> length (C p)"
    and "add_deposits tot (concat (map C [Suc k..<Suc (k + d)])) = Inl e"
  shows "\<exists>j. k < j \<and> j \<le> k + d \<and>
           address_cells_loop w a ps tot (Suc k) (tr @ cell_requests a ps k) =
             Some (Inl e, tr @ cell_requests a ps j)"
  using assms
proof (induction d)
  case 0
  then show ?case by simp
next
  case (Suc d)
  have whole: "add_deposits tot (concat (map C [Suc k..<Suc (k + d)]) @ C (Suc (k + d))) = Inl e"
    using Suc.prems(3) by (simp only: concat_pages_Suc)
  show ?case
  proof (cases "add_deposits tot (concat (map C [Suc k..<Suc (k + d)]))")
    case (Inl e')
    with whole have "e' = e" by (simp add: add_deposits_append)
    with Inl have "\<exists>j. k < j \<and> j \<le> k + d \<and>
           address_cells_loop w a ps tot (Suc k) (tr @ cell_requests a ps k) =
             Some (Inl e, tr @ cell_requests a ps j)"
      using Suc.prems(1,2) by (intro Suc.IH) simp_all
    then obtain j where "k < j" "j \<le> k + d"
      "address_cells_loop w a ps tot (Suc k) (tr @ cell_requests a ps k) =
         Some (Inl e, tr @ cell_requests a ps j)"
      by blast
    then have "k < j \<and> j \<le> k + Suc d \<and>
      address_cells_loop w a ps tot (Suc k) (tr @ cell_requests a ps k) =
         Some (Inl e, tr @ cell_requests a ps j)"
      by simp
    then show ?thesis by blast
  next
    case (Inr part)
    with whole have last: "add_deposits part (C (Suc (k + d))) = Inl e"
      by (simp add: add_deposits_append)
    have full: "\<forall>p. k < p \<and> p \<le> k + d \<longrightarrow>
             ps \<le> length (C p) \<and> (\<forall>t. address_live_cells w a p ps GET t = ok (C p))"
      using Suc.prems(1,2) by simp
    have good: "address_live_cells w a (Suc (k + d)) ps GET (tr @ cell_requests a ps (k + d)) =
                  ok (C (Suc (k + d)))"
      using Suc.prems(1) by simp
    have "address_cells_loop w a ps tot (Suc k) (tr @ cell_requests a ps k) =
          address_cells_loop w a ps part (Suc (k + d)) (tr @ cell_requests a ps (k + d))"
      using full Inr by (rule cells_loop_run)
    also have "\<dots> = Some (Inl e, (tr @ cell_requests a ps (k + d)) @
                                  [(GET, AddressLiveCells a (Suc (k + d)) ps)])"
      using good last by (simp add: cells_loop_page)
    finally have "address_cells_loop w a ps tot (Suc k) (tr @ cell_requests a ps k) =
          Some (Inl e, tr @ cell_requests a ps (Suc (k + d)))"
      by (simp add: cell_requests_Suc)
    then have "k < Suc (k + d) \<and> Suc (k + d) \<le> k + Suc d \<and>
          address_cells_loop w a ps tot (Suc k) (tr @ cell_requests a ps k) =
          Some (Inl e, tr @ cell_requests a ps (Suc (k + d)))"
      by simp
    then show ?thesis by blast
  qed
qed

text \<open>Below \<open>2 ^ 53\<close> the float sum of whole capacities is their exact sum.\<close>

lemma add_deposits_exact:
  assumes "tot + deposit_sum cells < 2 ^ 53"
    and "\<forall>c \<in> set cells. is_deposit c \<longrightarrow> whole_capacity c"
  shows "add_deposits (Finite tot) cells = Inr (Finite (tot + deposit_sum cells))"
  using assms
proof (induction cells arbitrary: tot)
  case Nil
  then show ?case by (simp add: deposit_sum_def)
next
  case (Cons c cells)
  show ?case
  proof (cases "is_deposit c")
    case True
    with Cons.prems(2) obtain n where n: "shannons (capacity c) = Some n"
      by (auto simp: whole_capacity_def)
    then have s: "deposit_sum (c # cells) = n + deposit_sum cells"
      using True by (simp add: deposit_sum_def shannons_of_def)
    with Cons.prems(1) have b: "n < 2 ^ 53" "tot + n < 2 ^ 53" "(tot + n) + deposit_sum cells < 2 ^ 53"
      by simp_all
    have "python_float (capacity c) = Inr (Finite n)" using n b(1) by (rule python_float_whole)
    then have "add_deposits (Finite tot) (c # cells) = add_deposits (Finite (tot + n)) cells"
      using True b(2) by (simp add: is_deposit_def float_of_nat_exact)
    also have "\<dots> = Inr (Finite ((tot + n) + deposit_sum cells))"
      using b(3) Cons.prems(2) by (intro Cons.IH) simp_all
    finally show ?thesis using s by simp
  next
    case False
    then have s: "deposit_sum (c # cells) = deposit_sum cells" by (simp add: deposit_sum_def)
    have "add_deposits (Finite tot) (c # cells) = add_deposits (Finite tot) cells"
      using False by (simp add: is_deposit_def)
    also have "\<dots> = Inr (Finite (tot + deposit_sum cells))"
      using Cons.prems s by (intro Cons.IH) simp_all
    finally show ?thesis using s by simp
  qed
qed

text \<open>
  Claim C4. Both pagination loops end by their own rule, after one request per page. The
  vote paginator asks for the pages 1, 2, ... in turn and stops at the first empty page: when
  the pages \<open>1\<close> to \<open>n\<close> of an option are not empty and page \<open>n + 1\<close> is, it returns the
  votes of the \<open>n\<close> pages in order after exactly \<open>n + 1\<close> requests. The cell paginator stops
  at the first short page: when the pages \<open>1\<close> to \<open>k\<close> of an address hold at least 20 cells and
  page \<open>k + 1\<close> holds fewer, it has summed all \<open>k + 1\<close> pages after exactly \<open>k + 1\<close> requests
  and returns the floor of that sum over \<open>10 ^ 8\<close>. The one other way out of the cell loop is
  a capacity that \<^verbatim>\<open>float\<close> rejects: its exception leaves the function at the page of
  that cell, after at most \<open>k + 1\<close> requests.
\<close>

theorem pagination_terminates:
  assumes "\<forall>p. 1 \<le> p \<and> p \<le> n \<longrightarrow>
             P p \<noteq> [] \<and> (\<forall>t. poll_list w oid p POST t = ok (success (P p)))"
    and "\<forall>t. poll_list w oid (Suc n) POST t = ok (success [])"
    and "\<forall>p. 1 \<le> p \<and> p \<le> k \<longrightarrow>
             20 \<le> length (C p) \<and> (\<forall>t. address_live_cells w a p 20 GET t = ok (C p))"
    and "length (C (Suc k)) < 20"
    and "\<forall>t. address_live_cells w a (Suc k) 20 GET t = ok (C (Suc k))"
  shows "get_all_votes w oid tr =
           Some (Inr (Some (concat (map P [1..<Suc n]))), tr @ vote_requests oid (Suc n)) \<and>
         (case add_deposits (Finite 0) (concat (map C [1..<Suc (Suc k)])) of
            Inr total_capacity \<Rightarrow>
              get_address_onchain_weight w a tr =
                Some (floor_float_div total_capacity (10 ^ 8), tr @ cell_requests a 20 (Suc k))
          | Inl e \<Rightarrow>
              (\<exists>j. 1 \<le> j \<and> j \<le> Suc k \<and>
                 get_address_onchain_weight w a tr = Some (Inl e, tr @ cell_requests a 20 j)))"
proof
  have "get_all_votes_loop w oid [] (Suc 0) (tr @ vote_requests oid 0) =
        get_all_votes_loop w oid ([] @ concat (map P [Suc 0..<Suc (0 + n)])) (Suc (0 + n))
          (tr @ vote_requests oid (0 + n))"
    using assms(1) by (intro votes_loop_run) simp
  also have "\<dots> = Some (Inr (Some (concat (map P [1..<Suc n]))), tr @ vote_requests oid (Suc n))"
    using assms(2) by (simp add: votes_loop_page vote_requests_Suc)
  finally show "get_all_votes w oid tr =
           Some (Inr (Some (concat (map P [1..<Suc n]))), tr @ vote_requests oid (Suc n))"
    by (simp add: get_all_votes_def vote_requests_def)
next
  let ?sum = "add_deposits (Finite 0) (concat (map C [1..<Suc (Suc k)]))"
  have start: "address_cells_loop w a 20 (Finite 0) 1 tr =
               address_cells_loop w a 20 (Finite 0) (Suc 0) (tr @ cell_requests a 20 0)"
    by (simp add: cell_requests_def)
  have pages: "concat (map C [1..<Suc (Suc k)]) = concat (map C [Suc 0..<Suc (0 + k)]) @ C (Suc k)"
    by simp
  show "case ?sum of
          Inr total_capacity \<Rightarrow>
            get_address_onchain_weight w a tr =
              Some (floor_float_div total_capacity (10 ^ 8), tr @ cell_requests a 20 (Suc k))
        | Inl e \<Rightarrow>
            (\<exists>j. 1 \<le> j \<and> j \<le> Suc k \<and>
               get_address_onchain_weight w a tr = Some (Inl e, tr @ cell_requests a 20 j))"
  proof (cases ?sum)
    case (Inr total_capacity)
    then obtain part where part: "add_deposits (Finite 0) (concat (map C [Suc 0..<Suc (0 + k)])) = Inr part"
      and last: "add_deposits part (C (Suc k)) = Inr total_capacity"
      unfolding pages by (auto simp: add_deposits_append split: sum.splits)
    have "address_cells_loop w a 20 (Finite 0) (Suc 0) (tr @ cell_requests a 20 0) =
          address_cells_loop w a 20 part (Suc (0 + k)) (tr @ cell_requests a 20 (0 + k))"
      using assms(3) part by (intro cells_loop_run) simp_all
    also have "\<dots> = Some (Inr total_capacity, tr @ cell_requests a 20 (Suc k))"
      using assms(4,5) last by (simp add: cells_loop_page cell_requests_Suc)
    finally have "get_address_onchain_weight w a tr =
        Some (floor_float_div total_capacity (10 ^ 8), tr @ cell_requests a 20 (Suc k))"
      using start by (simp add: get_address_onchain_weight_def onchain_weight_paged_def)
    with Inr show ?thesis by simp
  next
    case (Inl e)
    have ok': "\<forall>p. 0 < p \<and> p \<le> 0 + Suc k \<longrightarrow> (\<forall>t. address_live_cells w a p 20 GET t = ok (C p))"
    proof (intro allI impI)
      fix p t
      assume p: "0 < p \<and> p \<le> 0 + Suc k"
      show "address_live_cells w a p 20 GET t = ok (C p)"
      proof (cases "p = Suc k")
        case True
        then show ?thesis using assms(5) by simp
      next
        case False
        with p have "1 \<le> p \<and> p \<le> k" by simp
        with assms(3) show ?thesis by blast
      qed
    qed
    have full': "\<forall>p. 0 < p \<and> p < 0 + Suc k \<longrightarrow> 20 \<le> length (C p)"
      using assms(3) by simp
    have sum': "add_deposits (Finite 0) (concat (map C [Suc 0..<Suc (0 + Suc k)])) = Inl e"
      using Inl by simp
    have "\<exists>j. 0 < j \<and> j \<le> 0 + Suc k \<and>
           address_cells_loop w a 20 (Finite 0) (Suc 0) (tr @ cell_requests a 20 0) =
             Some (Inl e, tr @ cell_requests a 20 j)"
      using ok' full' sum' by (rule cells_loop_raise)
    then obtain j where j: "0 < j" "j \<le> Suc k"
      and run: "address_cells_loop w a 20 (Finite 0) (Suc 0) (tr @ cell_requests a 20 0) =
             Some (Inl e, tr @ cell_requests a 20 j)"
      by auto
    have "get_address_onchain_weight w a tr = Some (Inl e, tr @ cell_requests a 20 j)"
      using start run by (simp add: get_address_onchain_weight_def onchain_weight_paged_def)
    with j have "1 \<le> j \<and> j \<le> Suc k \<and>
        get_address_onchain_weight w a tr = Some (Inl e, tr @ cell_requests a 20 j)"
      by simp
    then have "\<exists>j. 1 \<le> j \<and> j \<le> Suc k \<and>
        get_address_onchain_weight w a tr = Some (Inl e, tr @ cell_requests a 20 j)"
      by blast
    with Inl show ?thesis by simp
  qed
qed

lemma upt_1_3: "[1..<Suc 2] = [1, 2]" "[1..<Suc (Suc 2)] = [1, 2, 3]"
  by (simp_all add: upt_conv_Cons)

lemma floor_float_div_exact_numeral:
  "a < 2 ^ 53 \<Longrightarrow> floor_float_div (Finite a) 100000000 = Inr (int (a div 100000000))"
  using floor_float_div_exact[of a] by simp

lemma le2_cases: "1 \<le> p \<and> p \<le> (2::nat) \<Longrightarrow> p = 1 \<or> p = 2"
  by arith

lemma deposit_sum_replicate: "deposit_sum (replicate n (deposit c)) = n * c"
  by (simp add: deposit_sum_def is_deposit_def deposit_def shannons_of_def sum_list_replicate)

lemma whole_capacity_deposit: "whole_capacity (deposit c)"
  by (simp add: whole_capacity_def deposit_def)

lemma replicate_pages:
  "replicate 20 x @ replicate 20 x @ replicate 7 x = replicate 47 x"
  by (simp add: replicate_add[symmetric])

text \<open>
  The scenario of the claim: vote pages of sizes 5, 5 and 0 give 10 votes after 3 requests,
  and cell pages of sizes 20, 20 and 7 are read in 3 requests.
\<close>

theorem pagination_terminates_witness:
  "get_all_votes paging_world 1 [] =
     Some (Inr (Some (map (\<lambda>i. voter i 100) [1, 2, 3, 4, 5, 6, 7, 8, 9, 10])),
           [(POST, PollList 1 1), (POST, PollList 1 2), (POST, PollList 1 3)]) \<and>
   length (map (\<lambda>i. voter i 100) [1, 2, 3, 4, 5, 6, 7, 8, 9, 10]) = 10 \<and>
   get_address_onchain_weight paging_world ''ckb1qa'' [] =
     Some (Inr 94,
           [(GET, AddressLiveCells ''ckb1qa'' 1 20), (GET, AddressLiveCells ''ckb1qa'' 2 20),
            (GET, AddressLiveCells ''ckb1qa'' 3 20)])"
proof -
  let ?P = "\<lambda>p. page_of (map (\<lambda>i. voter i 100) [1, 2, 3, 4, 5, 6, 7, 8, 9, 10]) p 5"
  let ?C = "\<lambda>p. page_of (replicate 47 (deposit 200000000)) p 20"
  have h1: "\<forall>p. 1 \<le> p \<and> p \<le> 2 \<longrightarrow>
      ?P p \<noteq> [] \<and> (\<forall>t. poll_list paging_world 1 p POST t = ok (success (?P p)))"
    by (auto dest!: le2_cases simp: paging_world_def stateless_world_def page_of_def)
  have h2: "\<forall>t. poll_list paging_world 1 (Suc 2) POST t = ok (success [])"
    by (simp add: paging_world_def stateless_world_def page_of_def)
  have h3: "\<forall>p. 1 \<le> p \<and> p \<le> 2 \<longrightarrow>
      20 \<le> length (?C p) \<and> (\<forall>t. address_live_cells paging_world ''ckb1qa'' p 20 GET t = ok (?C p))"
    by (auto dest!: le2_cases simp: paging_world_def stateless_world_def page_of_def)
  have h4: "length (?C (Suc 2)) < 20"
    by (simp add: page_of_def)
  have h5: "\<forall>t. address_live_cells paging_world ''ckb1qa'' (Suc 2) 20 GET t = ok (?C (Suc 2))"
    by (simp add: paging_world_def stateless_world_def)
  have votes: "concat (map ?P [1..<Suc 2]) = map (\<lambda>i. voter i 100) [1, 2, 3, 4, 5, 6, 7, 8, 9, 10]"
    unfolding upt_1_3 by (simp add: page_of_def)
  have "concat (map ?C [1..<Suc (Suc 2)]) = replicate 47 (deposit 200000000)"
    unfolding upt_1_3 by (simp add: page_of_def replicate_pages)
  then have total: "add_deposits (Finite 0) (concat (map ?C [1..<Suc (Suc 2)])) = Inr (Finite 9400000000)"
    using add_deposits_exact[of 0 "replicate 47 (deposit 200000000)"]
    by (simp add: deposit_sum_replicate whole_capacity_deposit)
  have weight: "floor_float_div (Finite 9400000000) (10 ^ 8) = Inr 94"
    using floor_float_div_exact[of 9400000000] by simp
  note run = pagination_terminates[of 2 ?P paging_world 1 2 ?C "''ckb1qa''" "[]", OF h1 h2 h3 h4 h5]
  note A = run[THEN conjunct1, unfolded votes]
  note B = run[THEN conjunct2, unfolded total sum.case weight]
  show ?thesis
    using A B unfolding vote_requests_def cell_requests_def upt_1_3 by simp
qed
section \<open>Failures during pagination\<close>

lemma request_with_retry_fail_once:
  assumes "lower mname = method_name m"
    and "server u m tr = Returns \<lparr>status_code = sc, body = b\<rparr>"
    and "400 \<le> sc" "sc < 500" "sc \<noteq> 429"
  shows "request_with_retry mname u n tr =
         (Inl (RequestException (HTTPError (Some sc))), tr @ [(m, endpoint u)])"
proof -
  have a: "attempt_request mname u tr =
           (Inl (RequestException (HTTPError (Some sc))), tr @ [(m, endpoint u)])"
    using assms by (simp add: attempt_request_valid raise_for_status_def)
  have "request_with_retry mname u n tr = attempt_request mname u (tr @ replicate 0 (m, endpoint u))"
    by (rule request_with_retry_run[OF assms(1)]) (use assms(3-) in \<open>simp_all add: a retryable_failure_def\<close>)
  then show ?thesis using a by simp
qed






lemma votes_loop_never_raises:
  assumes "get_all_votes_loop w0 oid0 acc0 page0 tr0 = Some y0"
  shows "\<exists>x. fst y0 = Inr x"
proof (rule get_all_votes_loop.raw_induct[where P = "\<lambda>w oid acc page tr y. \<exists>x. fst y = Inr x",
      OF _ assms], goal_cases)
  case (1 loop w oid acc page tr y)
  obtain res t1 where rq: "request_with_retry ''post''
          \<lparr>endpoint = PollList oid page, server = poll_list w oid page\<rparr> MAX_RETRIES tr = (res, t1)"
    by (cases "request_with_retry ''post''
          \<lparr>endpoint = PollList oid page, server = poll_list w oid page\<rparr> MAX_RETRIES tr")
  show ?case
  proof (cases res)
    case (Inl e)
    then obtain e' where "e = RequestException e'"
      using request_with_retry_exn[where m = POST, OF _ rq[unfolded Inl]] by (auto simp: lower_get)
    with 1(2) rq Inl show ?thesis by auto
  next
    case (Inr resp)
    show ?thesis
    proof (cases "body resp")
      case None
      with 1(2) rq Inr show ?thesis by (auto simp: response_json_def)
    next
      case (Some d)
      show ?thesis
      proof (cases "status d \<and> code d = 20000 \<and> data d \<noteq> []")
        case False
        with 1(2) rq Inr Some show ?thesis
          by (auto simp: response_json_def Let_def split: if_splits)
      next
        case True
        with 1(2) rq Inr Some have "loop w oid (acc @ data d) (page + 1) t1 = Some y"
          by (auto simp: response_json_def Let_def)
        then show ?thesis by (rule 1(1))
      qed
    qed
  qed
qed

text \<open>
  Claim C6. Vote listing is all or nothing: when the pages \<open>1\<close> to \<open>n\<close> were fetched and the
  request for page \<open>n + 1\<close> ends in an error after the retry policy, or its answer is not JSON
  or not a success envelope, then \<^verbatim>\<open>get_all_votes\<close> returns \<^verbatim>\<open>None\<close>, not the votes of the pages
  fetched so far, and \<^verbatim>\<open>process_option\<close> returns \<^verbatim>\<open>None\<close> for the option.
\<close>

theorem vote_listing_all_or_nothing:
  assumes "\<forall>p. 1 \<le> p \<and> p \<le> n \<longrightarrow>
             P p \<noteq> [] \<and> (\<forall>t. poll_list w oid p POST t = ok (success (P p)))"
    and "request_with_retry ''post''
           \<lparr>endpoint = PollList oid (Suc n), server = poll_list w oid (Suc n)\<rparr>
           MAX_RETRIES (tr @ vote_requests oid n) = (r, t)"
    and "(\<exists>e. r = Inl e) \<or>
         (\<exists>resp. r = Inr resp \<and> (\<forall>d. body resp = Some d \<longrightarrow> \<not> (status d \<and> code d = 20000)))"
  shows "get_all_votes w oid tr = Some (Inr None, t) \<and>
         process_option w oid tr = Some (Inr None, t)"
proof -
  have "get_all_votes_loop w oid [] (Suc 0) (tr @ vote_requests oid 0) =
        get_all_votes_loop w oid ([] @ concat (map P [Suc 0..<Suc (0 + n)])) (Suc (0 + n))
          (tr @ vote_requests oid (0 + n))"
    using assms(1) by (intro votes_loop_run) simp
  also have "\<dots> = Some (Inr None, t)"
    using assms(2,3) by (auto simp: votes_loop_fail votes_loop_refused)
  finally have "get_all_votes w oid tr = Some (Inr None, t)"
    by (simp add: get_all_votes_def vote_requests_def)
  then show ?thesis by (simp add: process_option_def)
qed

text \<open>
  A first page of five votes followed by a 404 on the second page: no votes are returned.
\<close>

theorem vote_listing_all_or_nothing_witness:
  "get_all_votes failing_votes_world 1 [] =
     Some (Inr None, [(POST, PollList 1 1), (POST, PollList 1 2)]) \<and>
   process_option failing_votes_world 1 [] =
     Some (Inr None, [(POST, PollList 1 1), (POST, PollList 1 2)])"
proof -
  let ?P = "\<lambda>p::nat. map (\<lambda>i. voter i 100) [1, 2, 3, 4, 5]"
  have h1: "\<forall>p. 1 \<le> p \<and> p \<le> 1 \<longrightarrow>
      ?P p \<noteq> [] \<and> (\<forall>t. poll_list failing_votes_world 1 p POST t = ok (success (?P p)))"
    by (auto simp: failing_votes_world_def stateless_world_def)
  have h2: "request_with_retry ''post''
           \<lparr>endpoint = PollList 1 (Suc 1), server = poll_list failing_votes_world 1 (Suc 1)\<rparr>
           MAX_RETRIES ([] @ vote_requests 1 1) =
         (Inl (RequestException (HTTPError (Some 404))), [(POST, PollList 1 1), (POST, PollList 1 2)])"
    by (subst request_with_retry_fail_once[where m = POST and sc = 404 and b = None])
       (simp_all add: lower_get failing_votes_world_def stateless_world_def vote_requests_def)
  have h3: "(\<exists>e. (Inl (RequestException (HTTPError (Some 404))) :: exn + vote list envelope response) = Inl e) \<or>
         (\<exists>resp. (Inl (RequestException (HTTPError (Some 404))) :: exn + vote list envelope response) = Inr resp \<and>
            (\<forall>d. body resp = Some d \<longrightarrow> \<not> (status d \<and> code d = 20000)))"
    by simp
  show ?thesis
    by (rule vote_listing_all_or_nothing[of 1 ?P failing_votes_world 1 "[]", OF h1 h2 h3])
qed





section \<open>The weight of an address\<close>

lemma deposit_total_mset: "deposit_total (mset cells) = deposit_sum cells"
  by (simp add: deposit_total_def deposit_sum_def sum_mset_sum_list[symmetric] mset_filter[symmetric]
        del: mset_filter)

lemma page_of_concat:
  "concat (map (\<lambda>p. page_of xs p ps) [1..<Suc m]) = take (m * ps) xs"
proof (induction m)
  case 0
  then show ?case by simp
next
  case (Suc m)
  have "concat (map (\<lambda>p. page_of xs p ps) [1..<Suc (Suc m)]) =
        concat (map (\<lambda>p. page_of xs p ps) [1..<Suc m]) @ page_of xs (Suc m) ps"
    by simp
  also have "\<dots> = take (m * ps) xs @ take ps (drop (m * ps) xs)"
    unfolding Suc.IH by (simp add: page_of_def)
  also have "\<dots> = take (m * ps + ps) xs" by (simp add: take_add)
  finally show ?case by (simp add: add.commute)
qed

lemma page_of_full:
  assumes "1 \<le> p" and "p * ps \<le> length xs"
  shows "length (page_of xs p ps) = ps"
proof -
  obtain q where p: "p = Suc q" using assms(1) by (cases p) auto
  have "q * ps + ps \<le> length xs" using assms(2) p by (simp add: add.commute)
  then show ?thesis by (simp add: page_of_def p)
qed

lemma page_of_last:
  assumes "0 < ps"
  shows "length (page_of xs (Suc (length xs div ps)) ps) < ps"
proof -
  have "length xs - length xs div ps * ps = length xs mod ps"
    by (simp add: minus_div_mult_eq_mod)
  then show ?thesis using assms by (simp add: page_of_def)
qed

lemma cell_requests_0: "cell_requests a ps 0 = []"
  by (simp add: cell_requests_def)

lemma cells_loop_paged:
  assumes ps: "0 < ps"
    and srv: "\<forall>p t. 1 \<le> p \<longrightarrow> address_live_cells w a p ps GET t = ok (page_of cells p ps)"
    and sum: "add_deposits (Finite 0) cells = Inr summed"
  shows "address_cells_loop w a ps (Finite 0) 1 tr =
         Some (Inr summed, tr @ cell_requests a ps (Suc (length cells div ps)))"
proof -
  define q where "q = length cells div ps"
  have full: "\<forall>p. 0 < p \<and> p \<le> 0 + q \<longrightarrow>
      ps \<le> length (page_of cells p ps) \<and>
      (\<forall>t. address_live_cells w a p ps GET t = ok (page_of cells p ps))"
  proof (intro allI impI)
    fix p assume p: "0 < p \<and> p \<le> 0 + q"
    then have "p * ps \<le> q * ps" by simp
    also have "\<dots> \<le> length cells" by (simp add: q_def)
    finally have le: "p * ps \<le> length cells" .
    have "length (page_of cells p ps) = ps"
      by (rule page_of_full) (use p le in simp_all)
    then show "ps \<le> length (page_of cells p ps) \<and>
      (\<forall>t. address_live_cells w a p ps GET t = ok (page_of cells p ps))"
      using srv p by simp
  qed
  have all: "concat (map (\<lambda>p. page_of cells p ps) [1..<Suc (Suc q)]) = cells"
  proof -
    have "length cells < Suc q * ps"
      using ps unfolding q_def by (metis dividend_less_div_times mult.commute mult_Suc_right)
    then show ?thesis by (simp only: page_of_concat) simp
  qed
  have "concat (map (\<lambda>p. page_of cells p ps) [Suc 0..<Suc (0 + q)]) @ page_of cells (Suc q) ps = cells"
    using all by simp
  with sum obtain part
    where part: "add_deposits (Finite 0) (concat (map (\<lambda>p. page_of cells p ps) [Suc 0..<Suc (0 + q)])) =
                 Inr part"
      and last: "add_deposits part (page_of cells (Suc q) ps) = Inr summed"
    by (metis add_deposits_append_Inl add_deposits_append_Inr sum.exhaust sum.distinct(1))
  have "address_cells_loop w a ps (Finite 0) (Suc 0) (tr @ cell_requests a ps 0) =
        address_cells_loop w a ps part (Suc (0 + q)) (tr @ cell_requests a ps (0 + q))"
    using full part by (rule cells_loop_run)
  also have "\<dots> = Some (Inr summed, tr @ cell_requests a ps (Suc q))"
    using page_of_last[OF ps, of cells] srv last
    by (simp add: cells_loop_page cell_requests_Suc q_def)
  finally show ?thesis by (simp add: cell_requests_0 q_def)
qed

text \<open>
  Claim C2, as amended. Let the explorer serve the cells of an address in pages of any
  positive size, in any listing order, and let the capacities of the deposit cells be whole
  numbers of shannons that sum to less than \<open>2 ^ 53\<close>. Then the weight of the address is the
  floor of that sum divided by \<open>10 ^ 8\<close>: cells of other types add nothing, whatever their
  capacity, and neither the page size nor the order of the listing matters, since the sum is
  taken over the multiset of the cells. At the page size 20 of the source this is the result
  of \<^verbatim>\<open>get_address_onchain_weight\<close>.
\<close>

theorem onchain_weight_exact:
  assumes "0 < page_size"
    and "\<forall>p t. 1 \<le> p \<longrightarrow>
           address_live_cells w a p page_size GET t = ok (page_of listing p page_size)"
    and "\<forall>c \<in># mset listing. is_deposit c \<longrightarrow> whole_capacity c"
    and "deposit_total (mset listing) < 2 ^ 53"
  shows "onchain_weight_paged w a page_size tr =
           Some (Inr (int (deposit_total (mset listing) div 10 ^ 8)),
                 tr @ cell_requests a page_size (Suc (length listing div page_size))) \<and>
         (page_size = 20 \<longrightarrow>
            get_address_onchain_weight w a tr =
              Some (Inr (int (deposit_total (mset listing) div 10 ^ 8)),
                    tr @ cell_requests a 20 (Suc (length listing div 20))))"
proof -
  have s: "deposit_sum listing < 2 ^ 53" using assms(4) by (simp add: deposit_total_mset)
  then have "0 + deposit_sum listing < 2 ^ 53" by (simp only: add_0)
  moreover have "\<forall>c \<in> set listing. is_deposit c \<longrightarrow> whole_capacity c"
    using assms(3) by simp
  ultimately have "add_deposits (Finite 0) listing = Inr (Finite (0 + deposit_sum listing))"
    by (rule add_deposits_exact)
  then have sum: "add_deposits (Finite 0) listing = Inr (Finite (deposit_sum listing))"
    by (simp only: add_0)
  have "address_cells_loop w a page_size (Finite 0) 1 tr =
         Some (Inr (Finite (deposit_sum listing)),
               tr @ cell_requests a page_size (Suc (length listing div page_size)))"
    using assms(1,2) sum by (rule cells_loop_paged)
  then have "onchain_weight_paged w a page_size tr =
           Some (floor_float_div (Finite (deposit_sum listing)) (10 ^ 8),
                 tr @ cell_requests a page_size (Suc (length listing div page_size)))"
    by (simp add: onchain_weight_paged_def)
  then have "onchain_weight_paged w a page_size tr =
           Some (Inr (int (deposit_total (mset listing) div 10 ^ 8)),
                 tr @ cell_requests a page_size (Suc (length listing div page_size)))"
    unfolding floor_float_div_exact[OF s] deposit_total_mset .
  then show ?thesis by (auto simp: get_address_onchain_weight_def)
qed

lemma deposit_sum_mixed: "deposit_sum mixed_cells = 3750000000"
  by (simp add: mixed_cells_def deposit_sum_def is_deposit_def deposit_def shannons_of_def
        sum_list_replicate)

lemma whole_capacity_mixed: "\<forall>c \<in># mset mixed_cells. is_deposit c \<longrightarrow> whole_capacity c"
  by (auto simp: mixed_cells_def whole_capacity_def deposit_def)

text \<open>
  An address with 25 deposits of 1.5 CKB and 22 cells of another type weighs 37, fetched in
  pages of 7 as in pages of 20.
\<close>

theorem onchain_weight_exact_witness:
  "onchain_weight_paged mixed_world ''ckb1qa'' 7 [] =
     Some (Inr 37, cell_requests ''ckb1qa'' 7 7) \<and>
   get_address_onchain_weight mixed_world ''ckb1qa'' [] =
     Some (Inr 37, cell_requests ''ckb1qa'' 20 3)"
proof
  have h: "\<forall>p t. 1 \<le> p \<longrightarrow>
           address_live_cells mixed_world ''ckb1qa'' p 7 GET t = ok (page_of mixed_cells p 7)"
    by (simp add: mixed_world_def stateless_world_def)
  have b: "deposit_total (mset mixed_cells) < 2 ^ 53"
    by (simp add: deposit_total_mset deposit_sum_mixed)
  have l: "length mixed_cells = 47" by (simp add: mixed_cells_def)
  from onchain_weight_exact[of 7 mixed_world "''ckb1qa''" mixed_cells "[]", OF _ h whole_capacity_mixed b]
  show "onchain_weight_paged mixed_world ''ckb1qa'' 7 [] =
     Some (Inr 37, cell_requests ''ckb1qa'' 7 7)"
    by (simp add: deposit_total_mset deposit_sum_mixed l)
next
  have h: "\<forall>p t. 1 \<le> p \<longrightarrow>
           address_live_cells mixed_world ''ckb1qa'' p 20 GET t = ok (page_of mixed_cells p 20)"
    by (simp add: mixed_world_def stateless_world_def)
  have b: "deposit_total (mset mixed_cells) < 2 ^ 53"
    by (simp add: deposit_total_mset deposit_sum_mixed)
  have l: "length mixed_cells = 47" by (simp add: mixed_cells_def)
  from onchain_weight_exact[of 20 mixed_world "''ckb1qa''" mixed_cells "[]", OF _ h whole_capacity_mixed b]
  show "get_address_onchain_weight mixed_world ''ckb1qa'' [] =
     Some (Inr 37, cell_requests ''ckb1qa'' 20 3)"
    by (simp add: deposit_total_mset deposit_sum_mixed l)
qed

lemma round_to_double_whale: "round_to_double 10000000099999999 = 10000000100000000"
proof -
  have "bit_length 10000000099999999 = Suc 53" by (rule bit_length_eqI) simp_all
  then show ?thesis by (simp add: round_to_double_def round_half_even_def Let_def)
qed

lemma round_to_double_whale_rounded: "round_to_double 10000000100000000 = 10000000100000000"
proof -
  have "bit_length 10000000100000000 = Suc 53" by (rule bit_length_eqI) simp_all
  then show ?thesis by (simp add: round_to_double_def round_half_even_def Let_def)
qed

lemma float_of_nat_whale: "float_of_nat 10000000099999999 = Finite 10000000100000000"
  by (simp add: float_of_nat_def round_to_double_whale)

lemma float_of_nat_whale_rounded: "float_of_nat 10000000100000000 = Finite 10000000100000000"
  by (simp add: float_of_nat_def round_to_double_whale_rounded)

lemma floor_finite_div_whale: "floor_finite_div 10000000100000000 (10 ^ 8) = 100000001"
proof -
  have a: "bit_length 10000000100000000 = 54"
    using bit_length_eqI[of 53 10000000100000000] by simp
  have b: "bit_length 100000000 = 27" using bit_length_1e8 by simp
  have "quotient_exponent 10000000100000000 100000000 = - 26"
    by (simp add: quotient_exponent_def Let_def a b scaled_num_def scaled_den_def)
  then show ?thesis
    by (simp add: floor_finite_div_def Let_def scaled_num_def scaled_den_def round_half_even_def)
qed

lemma add_deposits_whale:
  "add_deposits (Finite 0) [deposit 10000000099999999] = Inr (Finite 10000000100000000)"
  by (simp add: deposit_def float_of_nat_whale float_of_nat_whale_rounded)

text \<open>
  Claim C2 as stated fails once the float arithmetic rounds. One deposit of
  10000000099999999 shannons becomes the float 10000000100000000, so the weight is
  100000001, while the floor of the exact quotient is 100000000.
\<close>

theorem onchain_weight_float_counterexample:
  "get_address_onchain_weight whale_world ''ckb1qa'' [] =
     Some (Inr 100000001, [(GET, AddressLiveCells ''ckb1qa'' 1 20)]) \<and>
   int (deposit_total (mset [deposit 10000000099999999]) div 10 ^ 8) = 100000000"
proof
  have "address_cells_loop whale_world ''ckb1qa'' 20 (Finite 0) 1 [] =
         Some (Inr (Finite 10000000100000000),
               [] @ cell_requests ''ckb1qa'' 20 (Suc (length [deposit 10000000099999999] div 20)))"
    by (rule cells_loop_paged[OF _ _ add_deposits_whale])
       (simp_all add: whale_world_def stateless_world_def)
  then show "get_address_onchain_weight whale_world ''ckb1qa'' [] =
     Some (Inr 100000001, [(GET, AddressLiveCells ''ckb1qa'' 1 20)])"
    using floor_finite_div_whale
    by (simp add: get_address_onchain_weight_def onchain_weight_paged_def cell_requests_def)
next
  show "int (deposit_total (mset [deposit 10000000099999999]) div 10 ^ 8) = 100000000"
    by (simp add: deposit_total_def is_deposit_def deposit_def shannons_of_def)
qed
section \<open>Facts about the reconciliation\<close>

lemma address_weights_result:
  assumes "address_weights w addrs wl0 tot0 tr = Some (Inr res, t)"
  shows "\<exists>ws. res = (wl0 @ zip addrs ws, tot0 + sum_list ws) \<and> length ws = length addrs \<and>
              (\<forall>(a, x) \<in> set (zip addrs ws).
                 \<exists>t1 t2. get_address_onchain_weight w a t1 = Some (Inr x, t2))"
  using assms
proof (induction addrs arbitrary: wl0 tot0 tr)
  case Nil
  then show ?case by simp
next
  case (Cons a rest)
  from Cons.prems obtain x t1 where
    g: "get_address_onchain_weight w a tr = Some (Inr x, t1)" and
    rec: "address_weights w rest (wl0 @ [(a, x)]) (tot0 + x) t1 = Some (Inr res, t)"
    by (auto split: option.splits sum.splits prod.splits)
  from Cons.IH[OF rec] obtain ws where
    ws: "res = ((wl0 @ [(a, x)]) @ zip rest ws, tot0 + x + sum_list ws)"
      "length ws = length rest"
      "\<forall>(a, x) \<in> set (zip rest ws). \<exists>t1 t2. get_address_onchain_weight w a t1 = Some (Inr x, t2)"
    by blast
  show ?case
  proof (intro exI[of _ "x # ws"] conjI)
    show "res = (wl0 @ zip (a # rest) (x # ws), tot0 + sum_list (x # ws))"
      using ws(1) by (simp add: add.assoc)
    show "length (x # ws) = length (a # rest)" using ws(2) by simp
    show "\<forall>(a, x) \<in> set (zip (a # rest) (x # ws)).
            \<exists>t1 t2. get_address_onchain_weight w a t1 = Some (Inr x, t2)"
      using ws(3) g by auto
  qed
qed

lemma enrich_vote_falsy:
  "falsy_id (user_id v) \<Longrightarrow> enrich_vote w v tr = Some (Inr (no_addresses v), tr)"
  by (simp add: enrich_vote_def no_addresses_def)

lemma enrich_vote_result:
  assumes "enrich_vote w v tr = Some (Inr v', t)"
  shows "\<exists>wl. v' = v\<lparr>weight_list := Some wl, weight_calc := Some (sum_list (map snd wl))\<rparr> \<and>
              (\<forall>(a, x) \<in> set wl. \<exists>t1 t2. get_address_onchain_weight w a t1 = Some (Inr x, t2))"
proof (cases "falsy_id (user_id v)")
  case True
  with assms show ?thesis by (auto simp: enrich_vote_def intro!: exI[of _ "[]"])
next
  case False
  obtain ra t0 where u: "get_user_dao_addresses w (the (user_id v)) tr = (ra, t0)"
    by (cases "get_user_dao_addresses w (the (user_id v)) tr")
  from assms False u obtain addresses where ra: "ra = Inr addresses"
    by (cases ra) (auto simp: enrich_vote_def)
  show ?thesis
  proof (cases "addresses = []")
    case True
    with assms False u ra show ?thesis
      by (auto simp: enrich_vote_def intro!: exI[of _ "[]"])
  next
    case ne: False
    from assms False u ra ne obtain res where
      aw: "address_weights w addresses [] 0 t0 = Some (Inr res, t)"
      by (auto simp: enrich_vote_def split: option.splits prod.splits sum.splits)
    from address_weights_result[OF aw] obtain ws where
      ws: "res = (zip addresses ws, sum_list ws)" "length ws = length addresses"
        "\<forall>(a, x) \<in> set (zip addresses ws).
            \<exists>t1 t2. get_address_onchain_weight w a t1 = Some (Inr x, t2)"
      by auto
    have "v' = v\<lparr>weight_list := Some (zip addresses ws), weight_calc := Some (sum_list ws)\<rparr>"
      using assms False u ra ne aw ws(1) by (simp add: enrich_vote_def)
    moreover have "sum_list (map snd (zip addresses ws)) = sum_list ws"
      using ws(2) by simp
    ultimately show ?thesis using ws(3) by (intro exI[of _ "zip addresses ws"]) simp
  qed
qed

lemma enrich_vote_user_id:
  assumes "enrich_vote w v tr = Some (Inr v', t)"
  shows "user_id v' = user_id v"
  using enrich_vote_result[OF assms] by auto

lemma enrich_votes_Cons:
  assumes "enrich_votes w (v # rest) tr = Some (Inr vs', t)"
  shows "\<exists>v' t1 rest'. enrich_vote w v tr = Some (Inr v', t1) \<and>
           enrich_votes w rest t1 = Some (Inr rest', t) \<and> vs' = v' # rest'"
  using assms by (auto split: option.splits sum.splits prod.splits)

lemma enrich_votes_result:
  assumes "enrich_votes w vs tr = Some (Inr vs', t)"
  shows "length vs' = length vs \<and>
           (\<forall>v' \<in> set vs'. \<exists>wl. weight_list v' = Some wl \<and>
               weight_calc v' = Some (sum_list (map snd wl)) \<and>
               (\<forall>(a, x) \<in> set wl. \<exists>t1 t2. get_address_onchain_weight w a t1 = Some (Inr x, t2)))"
  using assms
proof (induction vs arbitrary: tr vs' t)
  case Nil
  then show ?case by simp
next
  case (Cons v rest)
  from enrich_votes_Cons[OF Cons.prems] obtain v' t1 rest' where
    e1: "enrich_vote w v tr = Some (Inr v', t1)" and
    e2: "enrich_votes w rest t1 = Some (Inr rest', t)" and
    vs': "vs' = v' # rest'"
    by blast
  from enrich_vote_result[OF e1] obtain wl where
    wl: "v' = v\<lparr>weight_list := Some wl, weight_calc := Some (sum_list (map snd wl))\<rparr>"
      "\<forall>(a, x) \<in> set wl. \<exists>t1 t2. get_address_onchain_weight w a t1 = Some (Inr x, t2)"
    by blast
  have head: "\<exists>wl. weight_list v' = Some wl \<and> weight_calc v' = Some (sum_list (map snd wl)) \<and>
               (\<forall>(a, x) \<in> set wl. \<exists>t1 t2. get_address_onchain_weight w a t1 = Some (Inr x, t2))"
    using wl by (intro exI[of _ wl]) simp
  from Cons.IH[OF e2] head show ?case unfolding vs' by simp
qed

lemma export_vote_rows:
  assumes "weight_list v = Some wl" and "weight_calc v = Some tot"
  shows "\<forall>r \<in> set (export_vote v).
           need_review r = (reported v \<noteq> math_floor tot) \<and>
           total_weight_onchain_floored r = math_floor tot \<and>
           total_weight_metaforo r = reported v \<and> userid r = user_id v \<and> nickname r = name v"
  using assms by (auto simp: export_vote_def reported_def Let_def)

lemma export_vote_addresses:
  assumes "weight_list v = Some wl"
  shows "map address (export_vote v) = (if wl = [] then [[]] else map fst wl)"
    and "map address_weight_floored (export_vote v) = (if wl = [] then [0] else map snd wl)"
  using assms by (auto simp: export_vote_def Let_def math_floor_def)

lemma user_addresses_ok:
  assumes "profile w uid GET tr = ok (success u)"
  shows "get_user_dao_addresses w uid tr =
           ((case metamask_to_ckb_address w (web3_public_key u) of
               Inl e \<Rightarrow> Inl e
             | Inr derived \<Rightarrow>
                 Inr (if derived \<noteq> [] \<and> derived \<notin> set (neuron_addresses u)
                      then neuron_addresses u @ [derived] else neuron_addresses u)),
            tr @ [(GET, Profile uid)])"
proof -
  have "request_with_retry ''get'' \<lparr>endpoint = Profile uid, server = profile w uid\<rparr> MAX_RETRIES tr =
        (Inr \<lparr>status_code = 200, body = Some (success u)\<rparr>, tr @ [(GET, Profile uid)])"
    using request_with_retry_ok[where m = GET and mname = "''get''"
        and u = "\<lparr>endpoint = Profile uid, server = profile w uid\<rparr>" and tr = tr and b = "success u"]
      assms
    by (simp add: lower_get)
  then show ?thesis
    by (auto simp: get_user_dao_addresses_def response_json_def success_def Let_def
          metamask_to_ckb_address_def split: sum.splits)
qed

lemma onchain_weight_listing:
  assumes "\<forall>p t. 1 \<le> p \<longrightarrow> address_live_cells w a p 20 GET t = ok (page_of cells p 20)"
    and "\<forall>c \<in> set cells. is_deposit c \<longrightarrow> whole_capacity c"
    and "deposit_sum cells < 2 ^ 53"
  shows "get_address_onchain_weight w a tr =
           Some (Inr (int (deposit_sum cells div 10 ^ 8)),
                 tr @ cell_requests a 20 (Suc (length cells div 20)))"
proof -
  from assms(3) have "0 + deposit_sum cells < 2 ^ 53" by (simp only: add_0)
  then have "add_deposits (Finite 0) cells = Inr (Finite (0 + deposit_sum cells))"
    using assms(2) by (rule add_deposits_exact)
  then have sum: "add_deposits (Finite 0) cells = Inr (Finite (deposit_sum cells))"
    by (simp only: add_0)
  have "address_cells_loop w a 20 (Finite 0) 1 tr =
         Some (Inr (Finite (deposit_sum cells)), tr @ cell_requests a 20 (Suc (length cells div 20)))"
    using assms(1) sum by (intro cells_loop_paged) simp_all
  then have "get_address_onchain_weight w a tr =
         Some (floor_float_div (Finite (deposit_sum cells)) (10 ^ 8),
               tr @ cell_requests a 20 (Suc (length cells div 20)))"
    by (simp add: get_address_onchain_weight_def onchain_weight_paged_def)
  then show ?thesis unfolding floor_float_div_exact[OF assms(3)] .
qed

lemma address_weights_listing:
  assumes "\<forall>a \<in> set addrs. \<forall>p t. 1 \<le> p \<longrightarrow>
             address_live_cells w a p 20 GET t = ok (page_of (cells a) p 20)"
    and "\<forall>a \<in> set addrs. \<forall>c \<in> set (cells a). is_deposit c \<longrightarrow> whole_capacity c"
    and "\<forall>a \<in> set addrs. deposit_sum (cells a) < 2 ^ 53"
  shows "address_weights w addrs wl tot tr =
           Some (Inr (wl @ map (\<lambda>a. (a, int (deposit_sum (cells a) div 10 ^ 8))) addrs,
                      tot + sum_list (map (\<lambda>a. int (deposit_sum (cells a) div 10 ^ 8)) addrs)),
                 tr @ concat (map (\<lambda>a. cell_requests a 20 (Suc (length (cells a) div 20))) addrs))"
  using assms
proof (induction addrs arbitrary: wl tot tr)
  case Nil
  then show ?case by simp
next
  case (Cons a rest)
  have g: "get_address_onchain_weight w a tr =
           Some (Inr (int (deposit_sum (cells a) div 10 ^ 8)),
                 tr @ cell_requests a 20 (Suc (length (cells a) div 20)))"
    using Cons.prems by (intro onchain_weight_listing) simp_all
  have "address_weights w (a # rest) wl tot tr =
        address_weights w rest (wl @ [(a, int (deposit_sum (cells a) div 10 ^ 8))])
          (tot + int (deposit_sum (cells a) div 10 ^ 8))
          (tr @ cell_requests a 20 (Suc (length (cells a) div 20)))"
    by (simp add: g)
  also have "\<dots> = Some (Inr ((wl @ [(a, int (deposit_sum (cells a) div 10 ^ 8))]) @
                        map (\<lambda>a. (a, int (deposit_sum (cells a) div 10 ^ 8))) rest,
                      (tot + int (deposit_sum (cells a) div 10 ^ 8)) +
                        sum_list (map (\<lambda>a. int (deposit_sum (cells a) div 10 ^ 8)) rest)),
                 (tr @ cell_requests a 20 (Suc (length (cells a) div 20))) @
                   concat (map (\<lambda>a. cell_requests a 20 (Suc (length (cells a) div 20))) rest))"
    using Cons.prems by (intro Cons.IH) simp_all
  finally show ?case by (simp add: add.assoc)
qed

lemma deposit_sum_single: "deposit_sum [deposit c] = c"
  by (simp add: deposit_sum_def is_deposit_def deposit_def shannons_of_def)

lemma cell_requests_1: "cell_requests a ps (Suc 0) = [(GET, AddressLiveCells a (Suc 0) ps)]"
  by (simp add: cell_requests_def)

lemma voter_fields:
  "user_id (voter uid n) = Some uid" "weight (voter uid n) = Some n" "name (voter uid n) = ''voter''"
  "reported (voter uid n) = n"
  by (simp_all add: voter_def reported_def)

lemma two_addresses_bound:
  assumes "profile w uid GET tr = ok (success two_addresses)"
  shows "get_user_dao_addresses w uid tr = (Inr [''ckb1qa'', ''ckb1qb''], tr @ [(GET, Profile uid)])"
  using user_addresses_ok[OF assms]
  by (simp add: two_addresses_def metamask_to_ckb_address_def)

text \<open>A voter with the two addresses, each holding one deposit of 1.5 CKB.\<close>

lemma enrich_two_addresses:
  assumes "\<forall>t. profile w 7 GET t = ok (success two_addresses)"
    and "\<forall>a p t. address_live_cells w a p 20 GET t = ok (page_of [deposit 150000000] p 20)"
  shows "enrich_vote w (voter 7 3) tr =
     Some (Inr ((voter 7 3)\<lparr>weight_list := Some [(''ckb1qa'', 1), (''ckb1qb'', 1)],
                              weight_calc := Some 2\<rparr>),
           tr @ [(GET, Profile 7), (GET, AddressLiveCells ''ckb1qa'' 1 20),
                 (GET, AddressLiveCells ''ckb1qb'' 1 20)])"
proof -
  have u: "get_user_dao_addresses w 7 tr = (Inr [''ckb1qa'', ''ckb1qb''], tr @ [(GET, Profile 7)])"
    by (rule two_addresses_bound) (simp add: assms(1))
  have h1: "\<forall>a \<in> set [''ckb1qa'', ''ckb1qb'']. \<forall>p t. 1 \<le> p \<longrightarrow>
             address_live_cells w a p 20 GET t =
             ok (page_of ((\<lambda>a. [deposit 150000000]) a) p 20)"
    by (simp add: assms(2))
  have h2: "\<forall>a \<in> set [''ckb1qa'', ''ckb1qb''].
              \<forall>c \<in> set ((\<lambda>a. [deposit 150000000]) a). is_deposit c \<longrightarrow> whole_capacity c"
    by (simp add: whole_capacity_deposit)
  have h3: "\<forall>a \<in> set [''ckb1qa'', ''ckb1qb'']. deposit_sum ((\<lambda>a. [deposit 150000000]) a) < 2 ^ 53"
    by (simp add: deposit_sum_single)
  have a: "address_weights w [''ckb1qa'', ''ckb1qb''] [] 0 (tr @ [(GET, Profile 7)]) =
        Some (Inr ([(''ckb1qa'', 1), (''ckb1qb'', 1)], 2),
              tr @ [(GET, Profile 7), (GET, AddressLiveCells ''ckb1qa'' 1 20),
                    (GET, AddressLiveCells ''ckb1qb'' 1 20)])"
    using address_weights_listing[OF h1 h2 h3, of "[]" 0 "tr @ [(GET, Profile 7)]"]
    by (simp add: deposit_sum_single cell_requests_1)
  show ?thesis
    by (simp add: enrich_vote_def falsy_id_def voter_fields u a del: address_weights.simps)
qed

lemma enrich_split:
  "enrich_vote split_world (voter 7 3) [] =
     Some (Inr ((voter 7 3)\<lparr>weight_list := Some [(''ckb1qa'', 1), (''ckb1qb'', 1)],
                              weight_calc := Some 2\<rparr>),
           [(GET, Profile 7), (GET, AddressLiveCells ''ckb1qa'' 1 20),
            (GET, AddressLiveCells ''ckb1qb'' 1 20)])"
  using enrich_two_addresses[of split_world "[]"]
  by (simp add: split_world_def stateless_world_def)

text \<open>
  Claim C3, as amended. The on-chain total of a voter is the sum of the weights that
  \<^verbatim>\<open>get_address_onchain_weight\<close> returned for the voter's addresses, each of them already
  floored to a whole number; this integer is what the export compares with the reported
  weight and writes as the floored total, and flooring it again changes nothing.
\<close>

theorem voter_total_sums_floored_weights:
  assumes "enrich_vote w v tr = Some (Inr v', t)"
  shows "\<exists>wl. weight_list v' = Some wl \<and> weight_calc v' = Some (sum_list (map snd wl)) \<and>
           (\<forall>(a, x) \<in> set wl. \<exists>t1 t2. get_address_onchain_weight w a t1 = Some (Inr x, t2)) \<and>
           (\<forall>r \<in> set (export_vote v').
              total_weight_onchain_floored r = sum_list (map snd wl) \<and>
              need_review r = (reported v' \<noteq> sum_list (map snd wl)))"
proof -
  from enrich_vote_result[OF assms] obtain wl where
    wl: "v' = v\<lparr>weight_list := Some wl, weight_calc := Some (sum_list (map snd wl))\<rparr>"
      "\<forall>(a, x) \<in> set wl. \<exists>t1 t2. get_address_onchain_weight w a t1 = Some (Inr x, t2)"
    by auto
  have f: "weight_list v' = Some wl" "weight_calc v' = Some (sum_list (map snd wl))"
    using wl(1) by simp_all
  from export_vote_rows[OF f] have
    "\<forall>r \<in> set (export_vote v').
        total_weight_onchain_floored r = sum_list (map snd wl) \<and>
        need_review r = (reported v' \<noteq> sum_list (map snd wl))"
    by (simp add: math_floor_def)
  with f wl(2) show ?thesis by blast
qed

text \<open>
  A voter with two addresses holding 1.5 CKB each: the weights are 1 and 1 and the total is 2.
\<close>

theorem voter_total_sums_floored_weights_witness:
  "enrich_vote split_world (voter 7 3) [] =
     Some (Inr ((voter 7 3)\<lparr>weight_list := Some [(''ckb1qa'', 1), (''ckb1qb'', 1)],
                              weight_calc := Some 2\<rparr>),
           [(GET, Profile 7), (GET, AddressLiveCells ''ckb1qa'' 1 20),
            (GET, AddressLiveCells ''ckb1qb'' 1 20)]) \<and>
   (\<exists>wl. weight_list ((voter 7 3)\<lparr>weight_list := Some [(''ckb1qa'', 1), (''ckb1qb'', 1)],
                                     weight_calc := Some 2\<rparr>) = Some wl \<and>
         weight_calc ((voter 7 3)\<lparr>weight_list := Some [(''ckb1qa'', 1), (''ckb1qb'', 1)],
                                     weight_calc := Some 2\<rparr>) = Some (sum_list (map snd wl)) \<and>
         (\<forall>(a, x) \<in> set wl.
            \<exists>t1 t2. get_address_onchain_weight split_world a t1 = Some (Inr x, t2)) \<and>
         (\<forall>r \<in> set (export_vote ((voter 7 3)\<lparr>weight_list := Some [(''ckb1qa'', 1), (''ckb1qb'', 1)],
                                                   weight_calc := Some 2\<rparr>)).
            total_weight_onchain_floored r = sum_list (map snd wl) \<and>
            need_review r = (reported ((voter 7 3)\<lparr>weight_list := Some [(''ckb1qa'', 1), (''ckb1qb'', 1)],
                                                      weight_calc := Some 2\<rparr>) \<noteq> sum_list (map snd wl))))"
  using enrich_split voter_total_sums_floored_weights[OF enrich_split] by (rule conjI)

text \<open>
  Claim C3 as stated fails for that voter: the floor of the sum of the unfloored weights
  is 3, the code's total is 2, and a reported weight of 3 is flagged for review.
\<close>

theorem voter_total_counterexample:
  "enrich_vote split_world (voter 7 3) [] =
     Some (Inr ((voter 7 3)\<lparr>weight_list := Some [(''ckb1qa'', 1), (''ckb1qb'', 1)],
                              weight_calc := Some 2\<rparr>),
           [(GET, Profile 7), (GET, AddressLiveCells ''ckb1qa'' 1 20),
            (GET, AddressLiveCells ''ckb1qb'' 1 20)]) \<and>
   int ((deposit_sum [deposit 150000000] + deposit_sum [deposit 150000000]) div 10 ^ 8) = 3 \<and>
   map need_review
     (export_vote ((voter 7 3)\<lparr>weight_list := Some [(''ckb1qa'', 1), (''ckb1qb'', 1)],
                                 weight_calc := Some 2\<rparr>)) = [True, True]"
proof (intro conjI)
  show "enrich_vote split_world (voter 7 3) [] =
     Some (Inr ((voter 7 3)\<lparr>weight_list := Some [(''ckb1qa'', 1), (''ckb1qb'', 1)],
                              weight_calc := Some 2\<rparr>),
           [(GET, Profile 7), (GET, AddressLiveCells ''ckb1qa'' 1 20),
            (GET, AddressLiveCells ''ckb1qb'' 1 20)])"
    by (rule enrich_split)
  show "int ((deposit_sum [deposit 150000000] + deposit_sum [deposit 150000000]) div 10 ^ 8) = 3"
    by (simp add: deposit_sum_single)
  show "map need_review
     (export_vote ((voter 7 3)\<lparr>weight_list := Some [(''ckb1qa'', 1), (''ckb1qb'', 1)],
                                 weight_calc := Some 2\<rparr>)) = [True, True]"
    by (simp add: export_vote_def voter_def math_floor_def)
qed

lemma process_option_result:
  assumes "process_option w oid tr = Some (Inr (Some rows), t)"
  shows "\<exists>vs t0 vs'. get_all_votes w oid tr = Some (Inr (Some vs), t0) \<and> vs \<noteq> [] \<and>
           enrich_votes w vs t0 = Some (Inr vs', t) \<and> rows = export_data vs'"
  using assms
  by (auto simp: process_option_def split: option.splits sum.splits prod.splits if_splits)





section \<open>Votes without a voter identifier\<close>

lemma export_no_addresses: "export_vote (no_addresses v) = [sentinel_row v]"
  by (simp add: export_vote_def no_addresses_def sentinel_row_def reported_def math_floor_def Let_def)

lemma no_addresses_user_id: "user_id (no_addresses v) = user_id v"
  by (simp add: no_addresses_def)

text \<open>
  The votes without identifier cost nothing: the enrichment of a vote list ends in the trace
  in which the enrichment of its votes with identifier ends, and these are enriched alike.
\<close>

lemma enrich_votes_restore:
  assumes "enrich_votes w (filter (\<lambda>v. \<not> falsy_id (user_id v)) votes) tr = Some (Inr others, t)"
  shows "\<exists>enriched. enrich_votes w votes tr = Some (Inr enriched, t) \<and>
           length enriched = length votes \<and>
           (\<forall>i < length votes. falsy_id (user_id (votes ! i)) \<longrightarrow>
              enriched ! i = no_addresses (votes ! i)) \<and>
           filter (\<lambda>v. \<not> falsy_id (user_id v)) enriched = others"
  using assms
proof (induction votes arbitrary: tr others)
  case Nil
  then show ?case by auto
next
  case (Cons v rest)
  show ?case
  proof (cases "falsy_id (user_id v)")
    case True
    with Cons.prems have
      "enrich_votes w (filter (\<lambda>v. \<not> falsy_id (user_id v)) rest) tr = Some (Inr others, t)"
      by simp
    from Cons.IH[OF this] obtain enriched where
      e: "enrich_votes w rest tr = Some (Inr enriched, t)"
        "length enriched = length rest"
        "\<forall>i < length rest. falsy_id (user_id (rest ! i)) \<longrightarrow> enriched ! i = no_addresses (rest ! i)"
        "filter (\<lambda>v. \<not> falsy_id (user_id v)) enriched = others"
      by blast
    have run: "enrich_votes w (v # rest) tr = Some (Inr (no_addresses v # enriched), t)"
      using True e(1) by (simp add: enrich_vote_falsy)
    have idx: "\<forall>i < length (v # rest). falsy_id (user_id ((v # rest) ! i)) \<longrightarrow>
                 (no_addresses v # enriched) ! i = no_addresses ((v # rest) ! i)"
    proof (intro allI impI)
      fix i
      assume "i < length (v # rest)" and "falsy_id (user_id ((v # rest) ! i))"
      then show "(no_addresses v # enriched) ! i = no_addresses ((v # rest) ! i)"
        using e(3) by (cases i) simp_all
    qed
    have "filter (\<lambda>v. \<not> falsy_id (user_id v)) (no_addresses v # enriched) = others"
      using True e(4) by (simp add: no_addresses_user_id)
    with run e(2) idx show ?thesis
      by (intro exI[of _ "no_addresses v # enriched"]) simp
  next
    case False
    with Cons.prems have
      "enrich_votes w (v # filter (\<lambda>v. \<not> falsy_id (user_id v)) rest) tr = Some (Inr others, t)"
      by simp
    from enrich_votes_Cons[OF this] obtain v' t1 rest' where
      e1: "enrich_vote w v tr = Some (Inr v', t1)" and
      e2: "enrich_votes w (filter (\<lambda>v. \<not> falsy_id (user_id v)) rest) t1 = Some (Inr rest', t)" and
      others: "others = v' # rest'"
      by blast
    from Cons.IH[OF e2] obtain enriched where
      e: "enrich_votes w rest t1 = Some (Inr enriched, t)"
        "length enriched = length rest"
        "\<forall>i < length rest. falsy_id (user_id (rest ! i)) \<longrightarrow> enriched ! i = no_addresses (rest ! i)"
        "filter (\<lambda>v. \<not> falsy_id (user_id v)) enriched = rest'"
      by blast
    have run: "enrich_votes w (v # rest) tr = Some (Inr (v' # enriched), t)"
      using e1 e(1) by simp
    have idx: "\<forall>i < length (v # rest). falsy_id (user_id ((v # rest) ! i)) \<longrightarrow>
                 (v' # enriched) ! i = no_addresses ((v # rest) ! i)"
    proof (intro allI impI)
      fix i
      assume "i < length (v # rest)" and "falsy_id (user_id ((v # rest) ! i))"
      then show "(v' # enriched) ! i = no_addresses ((v # rest) ! i)"
        using e(3) False by (cases i) simp_all
    qed
    have "filter (\<lambda>v. \<not> falsy_id (user_id v)) (v' # enriched) = others"
      using False e(4) others enrich_vote_user_id[OF e1] by simp
    with run e(2) idx show ?thesis
      by (intro exI[of _ "v' # enriched"]) simp
  qed
qed

lemma enrich_votes_identified:
  assumes "enrich_votes w votes tr = Some (Inr enriched, t)"
  shows "enrich_votes w (filter (\<lambda>v. \<not> falsy_id (user_id v)) votes) tr =
           Some (Inr (filter (\<lambda>v. \<not> falsy_id (user_id v)) enriched), t)"
  using assms
proof (induction votes arbitrary: tr enriched)
  case Nil
  then show ?case by auto
next
  case (Cons v rest)
  from enrich_votes_Cons[OF Cons.prems] obtain v' t1 rest' where
    e1: "enrich_vote w v tr = Some (Inr v', t1)" and
    e2: "enrich_votes w rest t1 = Some (Inr rest', t)" and
    enriched: "enriched = v' # rest'"
    by blast
  note IH = Cons.IH[OF e2]
  have id: "user_id v' = user_id v" using e1 by (rule enrich_vote_user_id)
  show ?case
  proof (cases "falsy_id (user_id v)")
    case True
    with e1 have "t1 = tr" by (simp add: enrich_vote_falsy)
    with True IH id show ?thesis unfolding enriched by simp
  next
    case False
    with e1 IH id show ?thesis unfolding enriched by simp
  qed
qed

text \<open>
  Claim C10. Let the vote listing of an option return the votes \<open>votes\<close>, not none, at the
  trace \<open>t0\<close>. Whenever \<^verbatim>\<open>process_option\<close> then returns rows, at a trace \<open>t\<close>, these are the rows
  of the enriched votes in the order of the listing, and every vote whose \<^verbatim>\<open>user_id\<close> is
  missing, null or zero has got the empty list of address weights and the on-chain total 0
  and gives exactly one row, the sentinel row: empty address fields, address weight 0,
  total 0 and \<^verbatim>\<open>need_review\<close> true exactly when the reported weight differs from 0. These
  votes add no request, neither a profile lookup nor a weight lookup: \<open>t\<close> is the trace at
  which the enrichment of the votes that have an identifier, taken alone from \<open>t0\<close>, returns,
  and it returns these votes enriched as \<^verbatim>\<open>process_option\<close> has them. Conversely, whenever the
  enrichment of the votes with an identifier returns at \<open>t\<close>, \<^verbatim>\<open>process_option\<close> returns rows at
  \<open>t\<close>: a vote without identifier never keeps it from exporting.
\<close>

theorem missing_voter_id:
  assumes "get_all_votes w oid tr = Some (Inr (Some votes), t0)" and "votes \<noteq> []"
  shows "(process_option w oid tr = Some (Inr (Some rows), t) \<longrightarrow>
            (\<exists>enriched.
               rows = concat (map export_vote enriched) \<and>
               length enriched = length votes \<and>
               (\<forall>i < length votes. falsy_id (user_id (votes ! i)) \<longrightarrow>
                  enriched ! i = no_addresses (votes ! i) \<and>
                  export_vote (enriched ! i) = [sentinel_row (votes ! i)]) \<and>
               enrich_votes w (filter (\<lambda>v. \<not> falsy_id (user_id v)) votes) t0 =
                 Some (Inr (filter (\<lambda>v. \<not> falsy_id (user_id v)) enriched), t))) \<and>
         (enrich_votes w (filter (\<lambda>v. \<not> falsy_id (user_id v)) votes) t0 = Some (Inr others, t) \<longrightarrow>
            (\<exists>exported. process_option w oid tr = Some (Inr (Some exported), t)))"
proof (intro conjI impI)
  assume "process_option w oid tr = Some (Inr (Some rows), t)"
  from process_option_result[OF this] assms(1) obtain enriched where
    e: "enrich_votes w votes t0 = Some (Inr enriched, t)" and rows: "rows = export_data enriched"
    by auto
  note f = enrich_votes_identified[OF e]
  from enrich_votes_restore[OF f] e have
    l: "length enriched = length votes" and
    i: "\<forall>i < length votes. falsy_id (user_id (votes ! i)) \<longrightarrow> enriched ! i = no_addresses (votes ! i)"
    by auto
  have s: "\<forall>i < length votes. falsy_id (user_id (votes ! i)) \<longrightarrow>
             enriched ! i = no_addresses (votes ! i) \<and>
             export_vote (enriched ! i) = [sentinel_row (votes ! i)]"
    using i by (simp add: export_no_addresses)
  have r: "rows = concat (map export_vote enriched)" using rows by (simp add: export_data_def)
  from r l s f
  show "\<exists>enriched.
          rows = concat (map export_vote enriched) \<and>
          length enriched = length votes \<and>
          (\<forall>i < length votes. falsy_id (user_id (votes ! i)) \<longrightarrow>
             enriched ! i = no_addresses (votes ! i) \<and>
             export_vote (enriched ! i) = [sentinel_row (votes ! i)]) \<and>
          enrich_votes w (filter (\<lambda>v. \<not> falsy_id (user_id v)) votes) t0 =
            Some (Inr (filter (\<lambda>v. \<not> falsy_id (user_id v)) enriched), t)"
    by blast
next
  assume "enrich_votes w (filter (\<lambda>v. \<not> falsy_id (user_id v)) votes) t0 = Some (Inr others, t)"
  from enrich_votes_restore[OF this] obtain enriched where
    "enrich_votes w votes t0 = Some (Inr enriched, t)"
    by blast
  with assms have "process_option w oid tr = Some (Inr (Some (export_data enriched)), t)"
    by (simp add: process_option_def)
  then show "\<exists>exported. process_option w oid tr = Some (Inr (Some exported), t)"
    by blast
qed

lemma mixed_votes_listing:
  "get_all_votes mixed_votes_world 1 [] =
     Some (Inr (Some [anonymous_vote, voter 7 3, voter 0 0]),
           [(POST, PollList 1 1), (POST, PollList 1 2)])"
proof -
  have p1: "poll_list mixed_votes_world 1 1 POST [] = ok (success [anonymous_vote, voter 7 3, voter 0 0])"
    by (simp add: mixed_votes_world_def stateless_world_def)
  have p2: "poll_list mixed_votes_world 1 (1 + 1) POST ([] @ [(POST, PollList 1 1)]) = ok (success [])"
    by (simp add: mixed_votes_world_def stateless_world_def)
  have s1: "get_all_votes_loop mixed_votes_world 1 [] 1 [] =
      get_all_votes_loop mixed_votes_world 1 ([] @ [anonymous_vote, voter 7 3, voter 0 0]) (1 + 1)
        ([] @ [(POST, PollList 1 1)])"
    using votes_loop_page[OF p1, of "[]"] by simp
  have s2: "get_all_votes_loop mixed_votes_world 1 ([] @ [anonymous_vote, voter 7 3, voter 0 0]) (1 + 1)
        ([] @ [(POST, PollList 1 1)]) =
      Some (Inr (Some ([] @ [anonymous_vote, voter 7 3, voter 0 0])),
            ([] @ [(POST, PollList 1 1)]) @ [(POST, PollList 1 (1 + 1))])"
    using votes_loop_page[OF p2, of "[] @ [anonymous_vote, voter 7 3, voter 0 0]"] by simp
  show ?thesis using s1 s2 by (simp add: get_all_votes_def)
qed

lemma falsy_examples:
  "falsy_id (user_id anonymous_vote)" "falsy_id (user_id (voter 0 0))"
  "\<not> falsy_id (user_id (voter 7 3))"
  by (simp_all add: falsy_id_def anonymous_vote_def voter_fields)

text \<open>
  An option with three votes, the first without identifier and the third with the identifier
  0: the one profile lookup is for voter 7, and the rows are a sentinel row, the two rows of
  voter 7 and another sentinel row. The first is flagged (50 against 0), the last is not
  (0 against 0).
\<close>

theorem missing_voter_id_witness:
  "process_option mixed_votes_world 1 [] =
     Some (Inr (Some (sentinel_row anonymous_vote #
                      export_vote ((voter 7 3)\<lparr>weight_list := Some [(''ckb1qa'', 1), (''ckb1qb'', 1)],
                                                 weight_calc := Some 2\<rparr>) @
                      [sentinel_row (voter 0 0)])),
           [(POST, PollList 1 1), (POST, PollList 1 2), (GET, Profile 7),
            (GET, AddressLiveCells ''ckb1qa'' 1 20), (GET, AddressLiveCells ''ckb1qb'' 1 20)]) \<and>
   need_review (sentinel_row anonymous_vote) \<and> \<not> need_review (sentinel_row (voter 0 0))"
proof (intro conjI)
  let ?votes = "[anonymous_vote, voter 7 3, voter 0 0]"
  let ?listed = "[(POST, PollList 1 1), (POST, PollList 1 2)]"
  let ?v = "(voter 7 3)\<lparr>weight_list := Some [(''ckb1qa'', 1), (''ckb1qb'', 1)], weight_calc := Some 2\<rparr>"
  let ?t = "[(POST, PollList 1 1), (POST, PollList 1 2), (GET, Profile 7),
            (GET, AddressLiveCells ''ckb1qa'' 1 20), (GET, AddressLiveCells ''ckb1qb'' 1 20)]"
  have ne: "?votes \<noteq> []" by simp
  have "enrich_vote mixed_votes_world (voter 7 3) ?listed = Some (Inr ?v, ?t)"
    using enrich_two_addresses[of mixed_votes_world ?listed]
    by (simp add: mixed_votes_world_def stateless_world_def)
  then have others: "enrich_votes mixed_votes_world
      (filter (\<lambda>v. \<not> falsy_id (user_id v)) ?votes) ?listed = Some (Inr [?v], ?t)"
    by (simp add: falsy_examples)
  from missing_voter_id[OF mixed_votes_listing ne, of _ ?t "[?v]", THEN conjunct2, rule_format, OF others]
  obtain rows where p: "process_option mixed_votes_world 1 [] = Some (Inr (Some rows), ?t)"
    by blast
  from missing_voter_id[OF mixed_votes_listing ne, of rows ?t, THEN conjunct1, rule_format, OF p]
  obtain enriched where
    r: "rows = concat (map export_vote enriched)" and
    l: "length enriched = length ?votes" and
    i: "\<forall>i < length ?votes. falsy_id (user_id (?votes ! i)) \<longrightarrow>
          enriched ! i = no_addresses (?votes ! i) \<and>
          export_vote (enriched ! i) = [sentinel_row (?votes ! i)]" and
    f: "enrich_votes mixed_votes_world (filter (\<lambda>v. \<not> falsy_id (user_id v)) ?votes) ?listed =
          Some (Inr (filter (\<lambda>v. \<not> falsy_id (user_id v)) enriched), ?t)"
    by blast
  from f others have f': "filter (\<lambda>v. \<not> falsy_id (user_id v)) enriched = [?v]" by simp
  from l obtain a b c where abc: "enriched = [a, b, c]"
    by (auto simp: length_Suc_conv)
  from i[rule_format, of 0] abc have a: "a = no_addresses anonymous_vote"
    by (simp add: falsy_examples)
  from i[rule_format, of 2] abc have c: "c = no_addresses (voter 0 0)"
    by (simp add: falsy_examples)
  from f' have b: "b = ?v"
    unfolding abc a c by (simp add: no_addresses_user_id falsy_examples split: if_splits)
  show "process_option mixed_votes_world 1 [] =
     Some (Inr (Some (sentinel_row anonymous_vote # export_vote ?v @ [sentinel_row (voter 0 0)])), ?t)"
    using p unfolding r abc a b c by (simp add: export_no_addresses)
  show "need_review (sentinel_row anonymous_vote)"
    by (simp add: sentinel_row_def reported_def anonymous_vote_def)
  show "\<not> need_review (sentinel_row (voter 0 0))"
    by (simp add: sentinel_row_def voter_fields)
qed

section \<open>Facts about the identity resolver\<close>

lemma with_derived_distinct:
  "distinct native \<Longrightarrow> distinct (with_derived native derived)"
  by (simp add: with_derived_def)

lemma fromhex_raises: "fromhex s = Inl e \<Longrightarrow> e = ValueError"
  by (induction s arbitrary: e rule: fromhex.induct)
     (auto split: if_splits option.splits sum.splits)

lemma metamask_raises: "metamask_to_ckb_address w key = Inl e \<Longrightarrow> e = ValueError"
  by (auto simp: metamask_to_ckb_address_def Let_def fromhex_raises split: if_splits sum.splits)

lemma profile_request_ok:
  assumes "profile w uid GET tr = ok (success u)"
  shows "request_with_retry ''get'' \<lparr>endpoint = Profile uid, server = profile w uid\<rparr> MAX_RETRIES tr =
        (Inr \<lparr>status_code = 200, body = Some (success u)\<rparr>, tr @ [(GET, Profile uid)])"
  using request_with_retry_ok[where m = GET and mname = "''get''"
      and u = "\<lparr>endpoint = Profile uid, server = profile w uid\<rparr>" and tr = tr and b = "success u"]
    assms
  by (simp add: lower_get)

text \<open>
  Claim C8 as stated fails in two ways. A profile that lists an address twice gets it twice:
  the native list is copied as it is. And a profile whose foreign-chain key is not a string
  of hexadecimal digits gets no address list at all: \<^verbatim>\<open>bytearray.fromhex\<close> raises \<^verbatim>\<open>ValueError\<close>,
  which \<^verbatim>\<open>get_user_dao_addresses\<close> does not catch.
\<close>

theorem resolve_addresses_counterexample:
  "get_user_dao_addresses duplicate_world 7 [] =
     (Inr [''ckb1qa'', ''ckb1qa''], [(GET, Profile 7)]) \<and>
   \<not> distinct [''ckb1qa'', ''ckb1qa''] \<and>
   get_user_dao_addresses bad_key_world 7 [] = (Inl ValueError, [(GET, Profile 7)])"
proof (intro conjI)
  let ?u = "\<lparr>neuron_addresses = [''ckb1qa'', ''ckb1qa''], web3_public_key = []\<rparr>"
  have "profile duplicate_world 7 GET [] = ok (success ?u)"
    by (simp add: duplicate_world_def stateless_world_def)
  from user_addresses_ok[OF this]
  show "get_user_dao_addresses duplicate_world 7 [] =
     (Inr [''ckb1qa'', ''ckb1qa''], [(GET, Profile 7)])"
    by (simp add: metamask_to_ckb_address_def)
  show "\<not> distinct [''ckb1qa'', ''ckb1qa'']" by simp
  let ?b = "\<lparr>neuron_addresses = [''ckb1qa''], web3_public_key = ''0xZZ''\<rparr>"
  have bad: "metamask_to_ckb_address bad_key_world ''0xZZ'' = Inl ValueError"
    by (simp add: metamask_to_ckb_address_def lower_def lower_char_def hex_digit_def is_space_def)
  have "profile bad_key_world 7 GET [] = ok (success ?b)"
    by (simp add: bad_key_world_def stateless_world_def)
  from user_addresses_ok[OF this]
  show "get_user_dao_addresses bad_key_world 7 [] = (Inl ValueError, [(GET, Profile 7)])"
    by (simp add: bad)
qed

text \<open>
  Claim C8, as amended. When the profile request succeeds with a success envelope,
  \<^verbatim>\<open>get_user_dao_addresses\<close> returns the natively registered addresses as the profile lists
  them, duplicates included, if there is no foreign-chain key. If there is a key and the
  bridge derives an address from it (here: a non-empty one, as every encoded address is), the
  result is the native list followed by that one address, unless it is among the native
  addresses already; so the result has no duplicates whenever the native list has none. If
  there is a key and the bridge raises, which it does with \<^verbatim>\<open>ValueError\<close> only, for a key that
  is not a string of hexadecimal byte pairs, that exception leaves the resolver. When the
  request fails or the envelope is not a success, the result is the empty list and not an
  error, and a voter whose list is empty gets the on-chain total 0.
\<close>

theorem resolve_addresses:
  assumes "request_with_retry ''get'' \<lparr>endpoint = Profile uid, server = profile w uid\<rparr>
             MAX_RETRIES tr = (r, t)"
  shows "(\<forall>resp d. r = Inr resp \<and> body resp = Some d \<and> status d \<and> code d = 20000 \<longrightarrow>
            (web3_public_key (data d) = [] \<longrightarrow>
               get_user_dao_addresses w uid tr = (Inr (neuron_addresses (data d)), t)) \<and>
            (\<forall>derived. web3_public_key (data d) \<noteq> [] \<and>
               metamask_to_ckb_address w (web3_public_key (data d)) = Inr derived \<and>
               derived \<noteq> [] \<longrightarrow>
               get_user_dao_addresses w uid tr =
                 (Inr (with_derived (neuron_addresses (data d)) derived), t) \<and>
               (distinct (neuron_addresses (data d)) \<longrightarrow>
                  distinct (with_derived (neuron_addresses (data d)) derived))) \<and>
            (\<forall>e. web3_public_key (data d) \<noteq> [] \<and>
               metamask_to_ckb_address w (web3_public_key (data d)) = Inl e \<longrightarrow>
               e = ValueError \<and> get_user_dao_addresses w uid tr = (Inl e, t))) \<and>
         ((\<exists>e. r = Inl e) \<or>
          (\<exists>resp. r = Inr resp \<and> (\<forall>d. body resp = Some d \<longrightarrow> \<not> (status d \<and> code d = 20000))) \<longrightarrow>
            get_user_dao_addresses w uid tr = (Inr [], t)) \<and>
         (\<forall>v. user_id v = Some uid \<and> uid \<noteq> 0 \<and> get_user_dao_addresses w uid tr = (Inr [], t) \<longrightarrow>
            enrich_vote w v tr = Some (Inr (no_addresses v), t))"
proof -
  have success: "(web3_public_key (data d) = [] \<longrightarrow>
               get_user_dao_addresses w uid tr = (Inr (neuron_addresses (data d)), t)) \<and>
            (\<forall>derived. web3_public_key (data d) \<noteq> [] \<and>
               metamask_to_ckb_address w (web3_public_key (data d)) = Inr derived \<and>
               derived \<noteq> [] \<longrightarrow>
               get_user_dao_addresses w uid tr =
                 (Inr (with_derived (neuron_addresses (data d)) derived), t) \<and>
               (distinct (neuron_addresses (data d)) \<longrightarrow>
                  distinct (with_derived (neuron_addresses (data d)) derived))) \<and>
            (\<forall>e. web3_public_key (data d) \<noteq> [] \<and>
               metamask_to_ckb_address w (web3_public_key (data d)) = Inl e \<longrightarrow>
               e = ValueError \<and> get_user_dao_addresses w uid tr = (Inl e, t))"
    if h: "r = Inr resp \<and> body resp = Some d \<and> status d \<and> code d = 20000" for resp d
  proof (intro conjI allI impI)
    assume "web3_public_key (data d) = []"
    with h assms show "get_user_dao_addresses w uid tr = (Inr (neuron_addresses (data d)), t)"
      by (simp add: get_user_dao_addresses_def response_json_def Let_def)
  next
    fix derived
    assume k: "web3_public_key (data d) \<noteq> [] \<and>
               metamask_to_ckb_address w (web3_public_key (data d)) = Inr derived \<and> derived \<noteq> []"
    with h assms show "get_user_dao_addresses w uid tr =
                 (Inr (with_derived (neuron_addresses (data d)) derived), t)"
      by (simp add: get_user_dao_addresses_def response_json_def Let_def with_derived_def)
    show "distinct (neuron_addresses (data d)) \<Longrightarrow>
            distinct (with_derived (neuron_addresses (data d)) derived)"
      by (rule with_derived_distinct)
  next
    fix e
    assume k: "web3_public_key (data d) \<noteq> [] \<and>
               metamask_to_ckb_address w (web3_public_key (data d)) = Inl e"
    then have "metamask_to_ckb_address w (web3_public_key (data d)) = Inl e" by simp
    then show "e = ValueError" by (rule metamask_raises)
    from k h assms show "get_user_dao_addresses w uid tr = (Inl e, t)"
      by (simp add: get_user_dao_addresses_def response_json_def Let_def)
  qed
  have failure: "get_user_dao_addresses w uid tr = (Inr [], t)"
    if h: "(\<exists>e. r = Inl e) \<or>
          (\<exists>resp. r = Inr resp \<and> (\<forall>d. body resp = Some d \<longrightarrow> \<not> (status d \<and> code d = 20000)))"
  proof (cases r)
    case (Inl e)
    then obtain e' where "e = RequestException e'"
      using request_with_retry_exn[where m = GET, OF _ assms[unfolded Inl]] by (auto simp: lower_get)
    with Inl assms show ?thesis by (simp add: get_user_dao_addresses_def)
  next
    case (Inr resp)
    with h have "\<forall>d. body resp = Some d \<longrightarrow> \<not> (status d \<and> code d = 20000)" by simp
    with Inr assms show ?thesis
      by (cases "body resp") (auto simp: get_user_dao_addresses_def response_json_def)
  qed
  have zero: "enrich_vote w v tr = Some (Inr (no_addresses v), t)"
    if "user_id v = Some uid \<and> uid \<noteq> 0 \<and> get_user_dao_addresses w uid tr = (Inr [], t)"
    for v :: vote
    using that by (simp add: enrich_vote_def falsy_id_def no_addresses_def)
  from success failure zero show ?thesis by blast
qed

lemma lower_ab12: "lower ''AB12'' = ''ab12''"
  by (simp add: lower_def lower_char_def)

lemma fromhex_ab12: "fromhex ''ab12'' = Inr [171, 18]"
  by (simp add: hex_digit_def is_space_def)

lemma bridge_ab12: "metamask_to_ckb_address bridge_world ''0xAB12'' = Inr ''ckb1ab12''"
  by (simp add: metamask_to_ckb_address_def lower_ab12 fromhex_ab12 bridge_world_def
        stateless_world_def hex_of_byte_def del: fromhex.simps)

text \<open>
  A profile whose key derives a new address, a profile whose derived address is already
  registered, and a profile that answers 404.
\<close>

theorem resolve_addresses_witness:
  "get_user_dao_addresses bridge_world 7 [] = (Inr [''ckb1qa'', ''ckb1ab12''], [(GET, Profile 7)]) \<and>
   get_user_dao_addresses bridge_world 8 [] = (Inr [''ckb1ab12''], [(GET, Profile 8)]) \<and>
   get_user_dao_addresses bridge_world 9 [] = (Inr [], [(GET, Profile 9)]) \<and>
   enrich_vote bridge_world (voter 9 50) [] =
     Some (Inr (no_addresses (voter 9 50)), [(GET, Profile 9)])"
proof -
  let ?u7 = "\<lparr>neuron_addresses = [''ckb1qa''], web3_public_key = ''0xAB12''\<rparr>"
  let ?u8 = "\<lparr>neuron_addresses = [''ckb1ab12''], web3_public_key = ''0xAB12''\<rparr>"
  have r7: "request_with_retry ''get'' \<lparr>endpoint = Profile 7, server = profile bridge_world 7\<rparr>
             MAX_RETRIES [] =
           (Inr \<lparr>status_code = 200, body = Some (success ?u7)\<rparr>, [] @ [(GET, Profile 7)])"
    by (rule profile_request_ok) (simp add: bridge_world_def stateless_world_def)
  have r8: "request_with_retry ''get'' \<lparr>endpoint = Profile 8, server = profile bridge_world 8\<rparr>
             MAX_RETRIES [] =
           (Inr \<lparr>status_code = 200, body = Some (success ?u8)\<rparr>, [] @ [(GET, Profile 8)])"
    by (rule profile_request_ok) (simp add: bridge_world_def stateless_world_def)
  have r9: "request_with_retry ''get'' \<lparr>endpoint = Profile 9, server = profile bridge_world 9\<rparr>
             MAX_RETRIES [] =
           (Inl (RequestException (HTTPError (Some 404))), [] @ [(GET, Profile 9)])"
    using request_with_retry_fail_once[where m = GET and b = None and sc = 404 and mname = "''get''"
        and u = "\<lparr>endpoint = Profile 9, server = profile bridge_world 9\<rparr>" and tr = "[]"
        and n = MAX_RETRIES]
    by (simp add: lower_get bridge_world_def stateless_world_def)
  have a7: "get_user_dao_addresses bridge_world 7 [] = (Inr [''ckb1qa'', ''ckb1ab12''], [(GET, Profile 7)])"
    using resolve_addresses[OF r7] bridge_ab12
    by (simp add: success_def with_derived_def)
  have a8: "get_user_dao_addresses bridge_world 8 [] = (Inr [''ckb1ab12''], [(GET, Profile 8)])"
    using resolve_addresses[OF r8] bridge_ab12
    by (simp add: success_def with_derived_def)
  have a9: "get_user_dao_addresses bridge_world 9 [] = (Inr [], [(GET, Profile 9)])"
    using resolve_addresses[OF r9] by simp
  have e9: "enrich_vote bridge_world (voter 9 50) [] =
     Some (Inr (no_addresses (voter 9 50)), [(GET, Profile 9)])"
    using resolve_addresses[OF r9] a9 by (simp add: voter_fields)
  from a7 a8 a9 e9 show ?thesis by simp
qed
section \<open>The loop over the options\<close>

text \<open>Every function of the pipeline extends the trace it was given.\<close>

lemma request_loop_trace:
  assumes "lower mname = method_name m"
  shows "\<exists>k. snd (request_loop mname u n xs last_exception tr) = tr @ replicate k (m, endpoint u) \<and>
             (xs \<noteq> [] \<longrightarrow> 0 < k)"
proof (induction xs arbitrary: last_exception tr)
  case Nil
  show ?case by (intro exI[of _ 0]) (simp split: option.splits)
next
  case (Cons attempt rest)
  have a: "snd (attempt_request mname u tr) = tr @ [(m, endpoint u)]"
    by (simp add: attempt_request_valid[OF assms])
  obtain r where r: "attempt_request mname u tr = (r, tr @ [(m, endpoint u)])"
    using a by (cases "attempt_request mname u tr") simp
  show ?case
  proof (cases "\<exists>e. r = Inl (RequestException e) \<and> attempt < n \<and> is_retryable_error (RequestException e)")
    case True
    then obtain e where e: "r = Inl (RequestException e)" "attempt < n"
      "is_retryable_error (RequestException e)" by blast
    from Cons.IH[of "Some (RequestException e)" "tr @ [(m, endpoint u)]"] obtain k where
      "snd (request_loop mname u n rest (Some (RequestException e)) (tr @ [(m, endpoint u)])) =
       (tr @ [(m, endpoint u)]) @ replicate k (m, endpoint u)" by blast
    then have "snd (request_loop mname u n (attempt # rest) last_exception tr) =
       tr @ replicate (Suc k) (m, endpoint u)"
      using r e by simp
    then show ?thesis by blast
  next
    case False
    then have "snd (request_loop mname u n (attempt # rest) last_exception tr) =
       tr @ replicate (Suc 0) (m, endpoint u)"
      using r by (cases r; cases "projl r") (auto split: exn.splits)
    then show ?thesis by blast
  qed
qed

lemma request_with_retry_trace:
  assumes "lower mname = method_name m"
  shows "\<exists>k. snd (request_with_retry mname u n tr) = tr @ (m, endpoint u) # replicate k (m, endpoint u)"
proof -
  from request_loop_trace[OF assms, of u n "[0..<n + 1]" None tr] obtain k where
    k: "snd (request_loop mname u n [0..<n + 1] None tr) = tr @ replicate k (m, endpoint u)" "0 < k"
    by auto
  then obtain j where "k = Suc j" by (cases k) auto
  with k(1) show ?thesis unfolding request_with_retry_def by (intro exI[of _ j]) (simp del: upt_Suc)
qed

lemma votes_loop_trace:
  assumes "get_all_votes_loop w0 oid0 acc0 page0 tr0 = Some y0"
  shows "prefix (tr0 @ [(POST, PollList oid0 page0)]) (snd y0)"
proof (rule get_all_votes_loop.raw_induct[where
      P = "\<lambda>w oid acc page tr y. prefix (tr @ [(POST, PollList oid page)]) (snd y)",
      OF _ assms], goal_cases)
  case (1 loop w oid acc page tr y)
  obtain res t1 where rq: "request_with_retry ''post''
          \<lparr>endpoint = PollList oid page, server = poll_list w oid page\<rparr> MAX_RETRIES tr = (res, t1)"
    by (cases "request_with_retry ''post''
          \<lparr>endpoint = PollList oid page, server = poll_list w oid page\<rparr> MAX_RETRIES tr")
  from request_with_retry_trace[where m = POST and mname = "''post''"
      and u = "\<lparr>endpoint = PollList oid page, server = poll_list w oid page\<rparr>"
      and n = MAX_RETRIES and tr = tr] rq
  have p: "prefix (tr @ [(POST, PollList oid page)]) t1"
    by (auto simp: lower_get prefix_def)
  show ?case
  proof (cases "\<exists>resp d. res = Inr resp \<and> body resp = Some d \<and> status d \<and> code d = 20000 \<and> data d \<noteq> []")
    case True
    then obtain resp d where "res = Inr resp" "body resp = Some d" "status d" "code d = 20000"
      "data d \<noteq> []" by blast
    with 1(2) rq have "loop w oid (acc @ data d) (page + 1) t1 = Some y"
      by (simp add: response_json_def Let_def)
    from 1(1)[OF this] have "prefix (t1 @ [(POST, PollList oid (page + 1))]) (snd y)" .
    then have "prefix t1 (snd y)" by (rule append_prefixD)
    with p show ?thesis by (rule prefix_order.trans)
  next
    case False
    with 1(2) rq have "snd y = t1"
      by (cases res; cases "projl res")
         (auto simp: response_json_def Let_def split: option.splits if_splits exn.splits)
    with p show ?thesis by simp
  qed
qed

lemma cells_loop_trace:
  assumes "address_cells_loop w0 a0 ps0 tot0 page0 tr0 = Some y0"
  shows "prefix tr0 (snd y0)"
proof (rule address_cells_loop.raw_induct[where
      P = "\<lambda>w a ps tot page tr y. prefix tr (snd y)", OF _ assms], goal_cases)
  case (1 loop w a ps tot page tr y)
  obtain res t1 where rq: "request_with_retry ''get''
          \<lparr>endpoint = AddressLiveCells a page ps, server = address_live_cells w a page ps\<rparr>
          MAX_RETRIES tr = (res, t1)"
    by (cases "request_with_retry ''get''
          \<lparr>endpoint = AddressLiveCells a page ps, server = address_live_cells w a page ps\<rparr>
          MAX_RETRIES tr")
  from request_with_retry_trace[where m = GET and mname = "''get''"
      and u = "\<lparr>endpoint = AddressLiveCells a page ps, server = address_live_cells w a page ps\<rparr>"
      and n = MAX_RETRIES and tr = tr] rq
  have p: "prefix tr t1"
    by (auto simp: lower_get prefix_def)
  show ?case
  proof (cases "\<exists>resp d summed. res = Inr resp \<and> body resp = Some d \<and>
                  add_deposits tot d = Inr summed \<and> \<not> length d < ps")
    case True
    then obtain resp d summed where "res = Inr resp" "body resp = Some d"
      "add_deposits tot d = Inr summed" "\<not> length d < ps" by blast
    with 1(2) rq have "loop w a ps summed (page + 1) t1 = Some y"
      by (simp add: response_json_def)
    from 1(1)[OF this] have "prefix t1 (snd y)" .
    with p show ?thesis by (rule prefix_order.trans)
  next
    case False
    with 1(2) rq have "snd y = t1"
      by (cases res; cases "projl res")
         (auto simp: response_json_def split: option.splits if_splits exn.splits sum.splits)
    with p show ?thesis by simp
  qed
qed

lemma onchain_weight_trace:
  assumes "get_address_onchain_weight w a tr = Some (r, t)"
  shows "prefix tr t"
proof -
  from assms obtain y where y: "address_cells_loop w a 20 (Finite 0) 1 tr = Some y" and "snd y = t"
    by (auto simp: get_address_onchain_weight_def onchain_weight_paged_def
             split: option.splits sum.splits prod.splits)
  with cells_loop_trace[OF y] show ?thesis by simp
qed

lemma user_addresses_trace: "prefix tr (snd (get_user_dao_addresses w uid tr))"
proof -
  obtain res t1 where rq: "request_with_retry ''get''
      \<lparr>endpoint = Profile uid, server = profile w uid\<rparr> MAX_RETRIES tr = (res, t1)"
    by (cases "request_with_retry ''get''
      \<lparr>endpoint = Profile uid, server = profile w uid\<rparr> MAX_RETRIES tr")
  from request_with_retry_trace[where m = GET and mname = "''get''"
      and u = "\<lparr>endpoint = Profile uid, server = profile w uid\<rparr>"
      and n = MAX_RETRIES and tr = tr] rq
  have p: "prefix tr t1" by (auto simp: lower_get prefix_def)
  have "snd (get_user_dao_addresses w uid tr) = t1"
    using rq
    by (cases res; cases "projl res")
       (auto simp: get_user_dao_addresses_def response_json_def Let_def
             split: option.splits if_splits exn.splits sum.splits)
  with p show ?thesis by simp
qed

lemma address_weights_trace:
  assumes "address_weights w addrs wl tot tr = Some (Inr res, t)"
  shows "prefix tr t"
  using assms
proof (induction addrs arbitrary: wl tot tr)
  case Nil
  then show ?case by simp
next
  case (Cons a rest)
  from Cons.prems obtain x t1 where
    g: "get_address_onchain_weight w a tr = Some (Inr x, t1)" and
    rec: "address_weights w rest (wl @ [(a, x)]) (tot + x) t1 = Some (Inr res, t)"
    by (auto split: option.splits sum.splits prod.splits)
  from onchain_weight_trace[OF g] Cons.IH[OF rec] show ?case by (rule prefix_order.trans)
qed

lemma enrich_vote_trace:
  assumes "enrich_vote w v tr = Some (Inr v', t)"
  shows "prefix tr t"
proof (cases "falsy_id (user_id v)")
  case True
  with assms show ?thesis by (simp add: enrich_vote_def)
next
  case False
  obtain ra t0 where u: "get_user_dao_addresses w (the (user_id v)) tr = (ra, t0)"
    by (cases "get_user_dao_addresses w (the (user_id v)) tr")
  with user_addresses_trace[of tr w "the (user_id v)"] have p: "prefix tr t0" by simp
  from assms False u obtain addresses where ra: "ra = Inr addresses"
    by (cases ra) (auto simp: enrich_vote_def)
  show ?thesis
  proof (cases "addresses = []")
    case True
    with assms False u ra p show ?thesis by (simp add: enrich_vote_def)
  next
    case ne: False
    from assms False u ra ne obtain res where
      aw: "address_weights w addresses [] 0 t0 = Some (Inr res, t)"
      by (auto simp: enrich_vote_def split: option.splits prod.splits sum.splits)
    from p address_weights_trace[OF aw] show ?thesis by (rule prefix_order.trans)
  qed
qed

lemma enrich_votes_trace:
  assumes "enrich_votes w vs tr = Some (Inr vs', t)"
  shows "prefix tr t"
  using assms
proof (induction vs arbitrary: tr vs')
  case Nil
  then show ?case by simp
next
  case (Cons v rest)
  from enrich_votes_Cons[OF Cons.prems] obtain v' t1 rest' where
    e1: "enrich_vote w v tr = Some (Inr v', t1)" and
    e2: "enrich_votes w rest t1 = Some (Inr rest', t)"
    by blast
  from enrich_vote_trace[OF e1] Cons.IH[OF e2] show ?case by (rule prefix_order.trans)
qed

lemma get_all_votes_result:
  assumes "get_all_votes w oid tr = Some (r, t)"
  shows "\<exists>x. r = Inr x" and "prefix (tr @ [(POST, PollList oid 1)]) t"
  using votes_loop_never_raises[OF assms[unfolded get_all_votes_def]]
    votes_loop_trace[OF assms[unfolded get_all_votes_def]]
  by simp_all

lemma process_option_cases:
  "process_option w oid tr = Some (Inr x, t1) \<longleftrightarrow>
     (\<exists>votes. get_all_votes w oid tr = Some (Inr votes, t1) \<and> (votes = None \<or> votes = Some []) \<and>
              x = None) \<or>
     (\<exists>votes t0 enriched. get_all_votes w oid tr = Some (Inr (Some votes), t0) \<and> votes \<noteq> [] \<and>
              enrich_votes w votes t0 = Some (Inr enriched, t1) \<and>
              x = Some (export_data enriched))"
  by (auto simp: process_option_def split: option.splits sum.splits prod.splits if_splits)

lemma process_options_run:
  "process_options w opts acc tr = Some (Inr res, t) \<longleftrightarrow>
     (\<exists>bs. res = acc @ bs \<and> options_run w opts tr bs t)"
proof (induction opts arbitrary: acc tr)
  case Nil
  show ?case by (auto intro: options_run.finished elim: options_run.cases)
next
  case (Cons oid rest)
  show ?case
  proof
    assume run: "process_options w (oid # rest) acc tr = Some (Inr res, t)"
    then obtain x t1 where po: "process_option w oid tr = Some (Inr x, t1)"
      by (auto split: option.splits sum.splits prod.splits)
    let ?goal = "\<exists>bs. res = acc @ bs \<and> options_run w (oid # rest) tr bs t"
    from po[unfolded process_option_cases] consider
      (skip) votes where "get_all_votes w oid tr = Some (Inr votes, t1)"
        "votes = None \<or> votes = Some []" "x = None"
    | (export) votes t0 enriched where "get_all_votes w oid tr = Some (Inr (Some votes), t0)"
        "votes \<noteq> []" "enrich_votes w votes t0 = Some (Inr enriched, t1)"
        "x = Some (export_data enriched)"
      by blast
    then show ?goal
    proof cases
      case skip
      note g = skip(1,2) and x = skip(3)
      from run po x have "process_options w rest acc t1 = Some (Inr res, t)" by simp
      with Cons.IH obtain bs where "res = acc @ bs" "options_run w rest t1 bs t" by blast
      with g show ?goal by (blast intro: options_run.skipped)
    next
      case export
      note g = export(1,2,3) and x = export(4)
      from run po x have
        "process_options w rest (acc @ [(oid, export_data enriched)]) t1 = Some (Inr res, t)" by simp
      with Cons.IH obtain bs where bs: "res = (acc @ [(oid, export_data enriched)]) @ bs"
        "options_run w rest t1 bs t" by blast
      from g bs(2) have "options_run w (oid # rest) tr ((oid, export_data enriched) # bs) t"
        by (rule options_run.exported)
      with bs(1) show ?goal by (intro exI[of _ "(oid, export_data enriched) # bs"]) simp
    qed
  next
    assume "\<exists>bs. res = acc @ bs \<and> options_run w (oid # rest) tr bs t"
    then obtain bs where r: "res = acc @ bs" and run: "options_run w (oid # rest) tr bs t"
      by blast
    let ?goal = "process_options w (oid # rest) acc tr = Some (Inr res, t)"
    from run show ?goal
    proof (cases rule: options_run.cases)
      case (skipped votes t1)
      then have "process_option w oid tr = Some (Inr None, t1)"
        unfolding process_option_cases by blast
      moreover have "process_options w rest acc t1 = Some (Inr res, t)"
        using Cons.IH r skipped(3) by blast
      ultimately show ?goal by simp
    next
      case (exported votes t0 enriched t1 bs')
      then have "process_option w oid tr = Some (Inr (Some (export_data enriched)), t1)"
        unfolding process_option_cases by blast
      moreover have "process_options w rest (acc @ [(oid, export_data enriched)]) t1 = Some (Inr res, t)"
        using Cons.IH[of "acc @ [(oid, export_data enriched)]" t1] r exported(1,5) by auto
      ultimately show ?goal by simp
    qed
  qed
qed

lemma options_run_prefix:
  "options_run w opts tr bs t \<Longrightarrow> prefix tr t"
proof (induction rule: options_run.induct)
  case (finished tr)
  show ?case by simp
next
  case (skipped oid tr votes t1 rest bs t)
  from get_all_votes_result(2)[OF skipped(1)] have "prefix tr t1" by (rule append_prefixD)
  with skipped.IH show ?case by (auto intro: prefix_order.trans)
next
  case (exported oid tr votes t0 enriched t1 rest bs t)
  from get_all_votes_result(2)[OF exported(1)] have "prefix tr t0" by (rule append_prefixD)
  with enrich_votes_trace[OF exported(3)] exported.IH show ?case
    by (auto intro: prefix_order.trans)
qed

lemma in_drop_prefix:
  assumes "prefix (tr @ [x]) t1" and "prefix t1 t"
  shows "x \<in> set (drop (length tr) t)"
proof -
  from assms obtain e1 e2 where "t1 = (tr @ [x]) @ e1" "t = t1 @ e2" by (auto simp: prefix_def)
  then show ?thesis by simp
qed

lemma in_drop_later:
  assumes "prefix tr t1" and "x \<in> set (drop (length t1) t)"
  shows "x \<in> set (drop (length tr) t)"
proof -
  have "length tr \<le> length t1" using assms(1) by (rule prefix_length_le)
  then have "set (drop (length t1) t) \<subseteq> set (drop (length tr) t)"
    by (rule set_drop_subset_set_drop)
  with assms(2) show ?thesis by blast
qed

lemma options_run_attempted:
  "options_run w opts tr bs t \<Longrightarrow> \<forall>oid \<in> set opts. (POST, PollList oid 1) \<in> set (drop (length tr) t)"
proof (induction rule: options_run.induct)
  case (finished tr)
  show ?case by simp
next
  case (skipped oid tr votes t1 rest bs t)
  note p = get_all_votes_result(2)[OF skipped(1)]
  have first: "(POST, PollList oid 1) \<in> set (drop (length tr) t)"
    using p options_run_prefix[OF skipped(3)] by (rule in_drop_prefix)
  have "prefix tr t1" using p by (rule append_prefixD)
  then have "\<forall>o' \<in> set rest. (POST, PollList o' 1) \<in> set (drop (length tr) t)"
    using skipped.IH by (auto intro: in_drop_later)
  with first show ?case by simp
next
  case (exported oid tr votes t0 enriched t1 rest bs t)
  note p = get_all_votes_result(2)[OF exported(1)]
  have p1: "prefix (tr @ [(POST, PollList oid 1)]) t1"
    using p enrich_votes_trace[OF exported(3)] by (rule prefix_order.trans)
  have first: "(POST, PollList oid 1) \<in> set (drop (length tr) t)"
    using p1 options_run_prefix[OF exported(4)] by (rule in_drop_prefix)
  have "prefix tr t1" using p1 by (rule append_prefixD)
  then have "\<forall>o' \<in> set rest. (POST, PollList o' 1) \<in> set (drop (length tr) t)"
    using exported.IH by (auto intro: in_drop_later)
  with first show ?case by simp
qed

lemma options_run_batches:
  "options_run w opts tr bs t \<Longrightarrow>
     subseq (map fst bs) opts \<and>
     (\<forall>(oid, rows) \<in> set bs. \<exists>votes. votes \<noteq> [] \<and> rows = concat (map export_vote votes) \<and>
        (\<forall>v \<in> set votes. \<exists>wl. weight_list v = Some wl \<and>
           map address (export_vote v) = (if wl = [] then [[]] else map fst wl)))"
proof (induction rule: options_run.induct)
  case (finished tr)
  show ?case by simp
next
  case (skipped oid tr votes t1 rest bs t)
  then show ?case by (auto intro: subseq_Cons')
next
  case (exported oid tr votes t0 enriched t1 rest bs t)
  from enrich_votes_result[OF exported(3)] have
    len: "length enriched = length votes" and
    wl: "\<forall>v' \<in> set enriched. \<exists>wl. weight_list v' = Some wl"
    by auto
  have "enriched \<noteq> []" using len exported(2) by auto
  moreover have "\<forall>v \<in> set enriched. \<exists>wl. weight_list v = Some wl \<and>
           map address (export_vote v) = (if wl = [] then [[]] else map fst wl)"
    using wl export_vote_addresses(1) by blast
  ultimately have "\<exists>votes. votes \<noteq> [] \<and> export_data enriched = concat (map export_vote votes) \<and>
        (\<forall>v \<in> set votes. \<exists>wl. weight_list v = Some wl \<and>
           map address (export_vote v) = (if wl = [] then [[]] else map fst wl))"
    by (intro exI[of _ enriched]) (simp add: export_data_def)
  with exported.IH show ?case by simp
qed

lemma votes_option_1:
  "get_all_votes two_options_world 1 [] = Some (Inr (Some []), [(POST, PollList 1 1)])"
proof -
  have p: "poll_list two_options_world 1 1 POST [] = ok (success [])"
    by (simp add: two_options_world_def stateless_world_def)
  show ?thesis
    using votes_loop_page[OF p, of "[]"] by (simp add: get_all_votes_def)
qed

lemma votes_option_2:
  "get_all_votes two_options_world 2 [(POST, PollList 1 1)] =
     Some (Inr (Some [anonymous_vote]), two_options_trace)"
proof -
  let ?t = "[(POST, PollList 1 1)]"
  have p1: "poll_list two_options_world 2 1 POST ?t = ok (success [anonymous_vote])"
    by (simp add: two_options_world_def stateless_world_def)
  have p2: "poll_list two_options_world 2 (1 + 1) POST (?t @ [(POST, PollList 2 1)]) = ok (success [])"
    by (simp add: two_options_world_def stateless_world_def)
  have s1: "get_all_votes_loop two_options_world 2 [] 1 ?t =
      get_all_votes_loop two_options_world 2 ([] @ [anonymous_vote]) (1 + 1) (?t @ [(POST, PollList 2 1)])"
    using votes_loop_page[OF p1, of "[]"] by simp
  have s2: "get_all_votes_loop two_options_world 2 ([] @ [anonymous_vote]) (1 + 1)
        (?t @ [(POST, PollList 2 1)]) =
      Some (Inr (Some ([] @ [anonymous_vote])),
            (?t @ [(POST, PollList 2 1)]) @ [(POST, PollList 2 (1 + 1))])"
    using votes_loop_page[OF p2, of "[] @ [anonymous_vote]"] by simp
  show ?thesis using s1 s2 by (simp add: get_all_votes_def two_options_trace_def)
qed

lemma enrich_anonymous:
  "enrich_votes w [anonymous_vote] t = Some (Inr [no_addresses anonymous_vote], t)"
  by (simp add: enrich_vote_def falsy_id_def anonymous_vote_def no_addresses_def)

lemma two_options_run:
  "options_run two_options_world [1, 2] []
     [(2, export_data [no_addresses anonymous_vote])] two_options_trace"
proof (rule options_run.skipped[OF votes_option_1])
  show "Some [] = None \<or> Some [] = Some ([] :: vote list)" by simp
  show "options_run two_options_world [2] [(POST, PollList 1 1)]
     [(2, export_data [no_addresses anonymous_vote])] two_options_trace"
  proof (rule options_run.exported[OF votes_option_2 _ enrich_anonymous])
    show "[anonymous_vote] \<noteq> []" by simp
    show "options_run two_options_world [] two_options_trace [] two_options_trace"
      by (rule options_run.finished)
  qed
qed

lemma raising_listing:
  "get_all_votes raising_world 1 [] =
     Some (Inr (Some [voter 7 3]), [(POST, PollList 1 1), (POST, PollList 1 2)])"
proof -
  have p1: "poll_list raising_world 1 1 POST [] = ok (success [voter 7 3])"
    by (simp add: raising_world_def stateless_world_def)
  have p2: "poll_list raising_world 1 (1 + 1) POST ([] @ [(POST, PollList 1 1)]) = ok (success [])"
    by (simp add: raising_world_def stateless_world_def)
  have s1: "get_all_votes_loop raising_world 1 [] 1 [] =
      get_all_votes_loop raising_world 1 ([] @ [voter 7 3]) (1 + 1) ([] @ [(POST, PollList 1 1)])"
    using votes_loop_page[OF p1, of "[]"] by simp
  have s2: "get_all_votes_loop raising_world 1 ([] @ [voter 7 3]) (1 + 1)
        ([] @ [(POST, PollList 1 1)]) =
      Some (Inr (Some ([] @ [voter 7 3])),
            ([] @ [(POST, PollList 1 1)]) @ [(POST, PollList 1 (1 + 1))])"
    using votes_loop_page[OF p2, of "[] @ [voter 7 3]"] by simp
  show ?thesis using s1 s2 by (simp add: get_all_votes_def)
qed

lemma raising_option:
  "process_option raising_world 1 [] =
     Some (Inl ValueError, [(POST, PollList 1 1), (POST, PollList 1 2), (GET, Profile 7)])"
proof -
  let ?b = "\<lparr>neuron_addresses = [''ckb1qa''], web3_public_key = ''0xZZ''\<rparr>"
  let ?listed = "[(POST, PollList 1 1), (POST, PollList 1 2)]"
  have bad: "metamask_to_ckb_address raising_world ''0xZZ'' = Inl ValueError"
    by (simp add: metamask_to_ckb_address_def lower_def lower_char_def hex_digit_def is_space_def)
  have "profile raising_world 7 GET ?listed = ok (success ?b)"
    by (simp add: raising_world_def stateless_world_def)
  from user_addresses_ok[OF this]
  have u: "get_user_dao_addresses raising_world 7 ?listed = (Inl ValueError, ?listed @ [(GET, Profile 7)])"
    by (simp add: bad)
  have "enrich_vote raising_world (voter 7 3) ?listed = Some (Inl ValueError, ?listed @ [(GET, Profile 7)])"
    using u by (simp add: enrich_vote_def falsy_id_def voter_fields)
  then show ?thesis using raising_listing by (simp add: process_option_def)
qed

text \<open>
  Claim C9 as stated fails in two ways. An option without votes gets no export batch: of the
  two options of the example only the second has one. And a failure while an option is
  processed can end the run: the voter of option 1 has a foreign-chain key that is not
  hexadecimal, the \<^verbatim>\<open>ValueError\<close> of the bridge leaves \<^verbatim>\<open>process_option\<close> and the loop of \<^verbatim>\<open>main\<close>,
  and no request is ever made for option 2.
\<close>

theorem options_processed_counterexample:
  "process_options two_options_world [1, 2] [] [] =
     Some (Inr [(2, export_data [no_addresses anonymous_vote])], two_options_trace) \<and>
   1 \<notin> set (map fst [(2 :: int, export_data [no_addresses anonymous_vote])]) \<and>
   process_options raising_world [1, 2] [] [] =
     Some (Inl ValueError, [(POST, PollList 1 1), (POST, PollList 1 2), (GET, Profile 7)]) \<and>
   (POST, PollList 2 1) \<notin> set [(POST, PollList 1 1), (POST, PollList 1 2), (GET, Profile 7)]"
proof (intro conjI)
  have "\<exists>bs. [(2, export_data [no_addresses anonymous_vote])] = [] @ bs \<and>
          options_run two_options_world [1, 2] [] bs two_options_trace"
    using two_options_run by (intro exI[of _ "[(2, export_data [no_addresses anonymous_vote])]"]) simp
  then show "process_options two_options_world [1, 2] [] [] =
     Some (Inr [(2, export_data [no_addresses anonymous_vote])], two_options_trace)"
    by (simp only: process_options_run)
  show "1 \<notin> set (map fst [(2 :: int, export_data [no_addresses anonymous_vote])])" by simp
  show "process_options raising_world [1, 2] [] [] =
     Some (Inl ValueError, [(POST, PollList 1 1), (POST, PollList 1 2), (GET, Profile 7)])"
    by (simp add: raising_option)
  show "(POST, PollList 2 1) \<notin> set [(POST, PollList 1 1), (POST, PollList 1 2), (GET, Profile 7)]"
    by simp
qed

text \<open>
  Claim C9, as amended. The options of a poll are processed in order. The loop returns its
  batches exactly along a run in which every option is taken in turn: an option whose vote
  listing fails or returns no vote gets no batch, and the loop goes on with the next option;
  an option with votes gets one batch, the export data of its enriched votes. In such a run
  the batches follow the order of the options, the first page of every option has been
  requested, and every batch consists of the rows of at least one vote, one row per address
  of the vote and one sentinel row with an empty address for a vote without addresses. An
  exception that leaves \<^verbatim>\<open>process_option\<close> is not caught: it ends the loop at that option.
\<close>

theorem options_processed_in_turn:
  "(process_options w opts acc tr = Some (Inr res, t) \<longleftrightarrow>
      (\<exists>bs. res = acc @ bs \<and> options_run w opts tr bs t)) \<and>
   (options_run w opts tr bs t \<longrightarrow>
      subseq (map fst bs) opts \<and>
      (\<forall>oid \<in> set opts. (POST, PollList oid 1) \<in> set (drop (length tr) t)) \<and>
      (\<forall>(oid, rows) \<in> set bs. \<exists>votes. votes \<noteq> [] \<and> rows = concat (map export_vote votes) \<and>
         (\<forall>v \<in> set votes. \<exists>wl. weight_list v = Some wl \<and>
            map address (export_vote v) = (if wl = [] then [[]] else map fst wl)))) \<and>
   (process_option w oid tr = Some (Inl e, t1) \<longrightarrow>
      process_options w (oid # rest) acc tr = Some (Inl e, t1))"
proof -
  have "process_option w oid tr = Some (Inl e, t1) \<longrightarrow>
      process_options w (oid # rest) acc tr = Some (Inl e, t1)"
    by simp
  with process_options_run[of w opts acc tr res t] options_run_attempted[of w opts tr bs t]
    options_run_batches[of w opts tr bs t]
  show ?thesis by blast
qed

text \<open>
  A poll with two options, the first without votes and the second with one vote without
  identifier: one batch, for option 2, and a first-page request for both options.
\<close>

theorem options_processed_in_turn_witness:
  "process_options two_options_world [1, 2] [] [] =
     Some (Inr ([] @ [(2, export_data [no_addresses anonymous_vote])]), two_options_trace) \<and>
   subseq (map fst [(2 :: int, export_data [no_addresses anonymous_vote])]) [1, 2] \<and>
   (POST, PollList 1 1) \<in> set (drop (length ([] :: trace)) two_options_trace) \<and>
   (POST, PollList 2 1) \<in> set (drop (length ([] :: trace)) two_options_trace)"
proof -
  from options_processed_in_turn[of two_options_world "[1, 2]" "[]" "[]"
      "[] @ [(2, export_data [no_addresses anonymous_vote])]" two_options_trace
      "[(2, export_data [no_addresses anonymous_vote])]"]
    two_options_run
  have "process_options two_options_world [1, 2] [] [] =
     Some (Inr ([] @ [(2, export_data [no_addresses anonymous_vote])]), two_options_trace)"
    and "subseq (map fst [(2 :: int, export_data [no_addresses anonymous_vote])]) [1, 2]"
    and "\<forall>oid \<in> set [1, 2].
           (POST, PollList oid 1) \<in> set (drop (length ([] :: trace)) two_options_trace)"
    by blast+
  then show ?thesis by simp
qed

end
